theory Spec2Isabelle
  imports Main
begin

section \<open>The CSS selector builder of \<open>05-objects-tasks.js\<close>\<close>

text \<open>
  The module exports \<open>cssSelectorBuilder\<close> beside \<open>Rectangle\<close>, \<open>getJSON\<close> and
  \<open>fromJSON\<close>; its text is the second document of \<open>src/04-date-tasks.js\<close>, after the
  date tasks. The builder is the object literal \<open>cssSelectorBuilder\<close>. Its six string fields hold the
  rendered text of each kind of selector part and \<open>partsOrder\<close> is the array of part names
  in the order they were appended. JavaScript strings are modelled as \<open>string\<close>; every
  character the code inspects (\<open>=\<close>, the brackets, the line feed) is ASCII, so the
  operations agree on UTF-8 bytes and on UTF-16 code units.
\<close>

subsection \<open>Library functions of JavaScript used by the builder\<close>

text \<open>\<open>Array.prototype.slice\<close> and \<open>String.prototype.slice\<close>: a negative index counts
  from the end, both indices are clamped to the length, and an empty range gives the
  empty sequence.\<close>

definition js_slice :: "'a list \<Rightarrow> int \<Rightarrow> int \<Rightarrow> 'a list" where
  "js_slice xs b e =
     (let n = int (length xs);
          k = (if b < 0 then max (n + b) 0 else min b n);
          f = (if e < 0 then max (n + e) 0 else min e n)
      in take (nat (f - k)) (drop (nat k) xs))"

text \<open>\<open>Array.prototype.indexOf\<close>: the first position of the element, \<open>-1\<close> when absent.\<close>

fun indexOf :: "'a list \<Rightarrow> 'a \<Rightarrow> int" where
  "indexOf [] x = -1"
| "indexOf (y # ys) x =
     (if y = x then 0 else (let i = indexOf ys x in if i < 0 then -1 else i + 1))"

text \<open>\<open>Array.prototype.at(-1)\<close>: the last element, \<open>undefined\<close> (here \<open>None\<close>) on the
  empty array.\<close>

definition at_last :: "'a list \<Rightarrow> 'a option" where
  "at_last xs = (if xs = [] then None else Some (last xs))"

text \<open>\<open>String.prototype.split\<close> with a one-character separator: the pieces between all
  occurrences of the separator; the empty string gives one empty piece.\<close>

fun split_str :: "char \<Rightarrow> string \<Rightarrow> string list" where
  "split_str c [] = [[]]"
| "split_str c (x # xs) =
     (if x = c then [] # split_str c xs
      else (case split_str c xs of
              [] \<Rightarrow> [[x]]
            | p # ps \<Rightarrow> (x # p) # ps))"

text \<open>The array destructuring \<open>const [key, value] = ...\<close>: the first two elements, each
  \<open>undefined\<close> when the array is too short; what follows the second element is dropped.\<close>

fun destructure2 :: "'a list \<Rightarrow> 'a option \<times> 'a option" where
  "destructure2 [] = (None, None)"
| "destructure2 [k] = (Some k, None)"
| "destructure2 (k # v # rest) = (Some k, Some v)"

text \<open>String conversion inside a template literal: \<open>undefined\<close> becomes the text
  \<open>undefined\<close>.\<close>

fun to_str :: "string option \<Rightarrow> string" where
  "to_str None = ''undefined''"
| "to_str (Some s) = s"

text \<open>\<open>Array.prototype.join\<close>.\<close>

fun join :: "string \<Rightarrow> string list \<Rightarrow> string" where
  "join sep [] = []"
| "join sep [x] = x"
| "join sep (x # y # ys) = x @ sep @ join sep (y # ys)"

text \<open>\<open>str.replaceAll('\n', '')\<close>: every line feed is removed.\<close>

definition LF :: char where
  "LF = CHR 0x0A"

definition strip_LF :: "string \<Rightarrow> string" where
  "strip_LF s = filter (\<lambda>c. c \<noteq> LF) s"

subsection \<open>Data\<close>

text \<open>The part names are the six string literals the public methods pass to
  \<open>processElement\<close>.\<close>

datatype partName = Element | Id | Class | Attr | PseudoClass | PseudoElement

record selector =
  elementStr :: string
  idStr :: string
  classesStr :: string
  attrStr :: string
  pseudoClassesStr :: string
  pseudoElementStr :: string
  partsOrder :: "partName list"

text \<open>The object literal itself: every field empty.\<close>

definition cssSelectorBuilder :: selector where
  "cssSelectorBuilder =
     \<lparr>elementStr = [], idStr = [], classesStr = [], attrStr = [],
      pseudoClassesStr = [], pseudoElementStr = [], partsOrder = []\<rparr>"

definition correctOrder :: "partName list" where
  "correctOrder = [Element, Id, Class, Attr, PseudoClass, PseudoElement]"

definition occurExeption :: string where
  "occurExeption =
     ''Element, id and pseudo-element should not occur more then one time inside the selector''"

definition rangeExeption :: string where
  "rangeExeption =
     ''Selector parts should be arranged in the following order: element, id, class, attribute, pseudo-class, pseudo-element''"

text \<open>\<open>throw new Error(message)\<close>.\<close>

datatype error = Error string

text \<open>\<open>this[this.propLib[partName]] = value\<close>: \<open>propLib\<close> sends each part name to the
  field that holds its text.\<close>

fun propLib_assign :: "partName \<Rightarrow> string \<Rightarrow> selector \<Rightarrow> selector" where
  "propLib_assign Element v s = s\<lparr>elementStr := v\<rparr>"
| "propLib_assign Id v s = s\<lparr>idStr := v\<rparr>"
| "propLib_assign Class v s = s\<lparr>classesStr := v\<rparr>"
| "propLib_assign Attr v s = s\<lparr>attrStr := v\<rparr>"
| "propLib_assign PseudoClass v s = s\<lparr>pseudoClassesStr := v\<rparr>"
| "propLib_assign PseudoElement v s = s\<lparr>pseudoElementStr := v\<rparr>"

subsection \<open>Methods that work on one object\<close>

text \<open>\<open>stringify\<close>: the template literal puts a line feed before each field, and
  \<open>replaceAll\<close> then removes every line feed of the whole text.\<close>

definition stringify :: "selector \<Rightarrow> string" where
  "stringify this =
     strip_LF ([LF] @ elementStr this @ [LF] @ idStr this @ [LF] @ classesStr this @ [LF]
               @ attrStr this @ [LF] @ pseudoClassesStr this @ [LF] @ pseudoElementStr this)"

text \<open>\<open>addPartToOrder\<close>: the name is pushed unless it is already the last one. An array
  and a non-empty name are both truthy, so the outer test always passes.\<close>

definition addPartToOrder :: "selector \<Rightarrow> partName \<Rightarrow> selector" where
  "addPartToOrder this partName =
     (if at_last (partsOrder this) \<noteq> Some partName
      then this\<lparr>partsOrder := partsOrder this @ [partName]\<rparr>
      else this)"

text \<open>\<open>checkElemOrder\<close>: every name before the last one must be among the names that
  precede the last one in \<open>correctOrder\<close>. The result is the exception thrown, if any.\<close>

definition checkElemOrder :: "selector \<Rightarrow> error option" where
  "checkElemOrder this =
     (let currentElement = at_last (partsOrder this);
          currentArr = js_slice (partsOrder this) 0 (-1);
          sampleArr = js_slice correctOrder 0
                        (case currentElement of None \<Rightarrow> -1 | Some c \<Rightarrow> indexOf correctOrder c)
      in if \<not> list_all (\<lambda>item. item \<in> set sampleArr) currentArr
         then Some (Error rangeExeption)
         else None)"

text \<open>The text \<open>processElement\<close> computes for each part name.\<close>

definition currentValue :: "selector \<Rightarrow> string \<Rightarrow> partName \<Rightarrow> string" where
  "currentValue this partValue partName =
     (case partName of
        Element \<Rightarrow> partValue
      | Id \<Rightarrow> ''#'' @ partValue
      | Class \<Rightarrow> classesStr this @ ''.'' @ partValue
      | Attr \<Rightarrow>
          (let currentAttr = js_slice (attrStr this) 1 (-1);
               (key, val) = destructure2 (split_str CHR ''='' partValue);
               attrObj = [(to_str key, val)];
               attrArr = map (\<lambda>(keyAttr, valueAttr). keyAttr @ ''='' @ to_str valueAttr) attrObj
           in if currentAttr \<noteq> []
              then ''['' @ currentAttr @ '' '' @ join '' '' attrArr @ '']''
              else ''['' @ join '' '' attrArr @ '']'')
      | PseudoClass \<Rightarrow> pseudoClassesStr this @ '':'' @ partValue
      | PseudoElement \<Rightarrow> pseudoElementStr this @ ''::'' @ partValue)"

text \<open>\<open>processElement\<close>: the field is assigned and the name pushed before the order is
  checked. The result is the object as the call leaves it, and the exception if one is
  thrown.\<close>

definition processElement :: "selector \<Rightarrow> string \<Rightarrow> partName \<Rightarrow> selector \<times> error option" where
  "processElement this partValue partName =
     (let this1 = propLib_assign partName (currentValue this partValue partName) this;
          this2 = addPartToOrder this1 partName
      in (this2, checkElemOrder this2))"

subsection \<open>The store of objects\<close>

text \<open>
  Objects are shared by reference, so the public methods work on a store: the list of
  all builder objects, an object's address being its index. \<open>buildNewObj\<close> gives the new
  object own copies of all seven data fields (\<open>Object.create\<close> with property
  descriptors, the array literal evaluated at each call), so no field is ever read through
  the prototype link and no array is shared between two objects; the link itself only
  supplies the methods and constants and is left out.
\<close>

type_synonym addr = nat
type_synonym heap = "selector list"

definition buildNewObj :: "heap \<Rightarrow> addr \<Rightarrow> heap \<times> addr" where
  "buildNewObj h this = (h @ [cssSelectorBuilder], length h)"

text \<open>The three closing lines shared by the six public methods:
  \<^verbatim>\<open>const currentObj = (this.stringify()) ? this : this.buildNewObj();\<close>
  \<^verbatim>\<open>this.processElement.call(currentObj, value, name);\<close>
  \<^verbatim>\<open>return currentObj;\<close>
  An exception leaves the store as it is at the throw.\<close>

definition onCurrentObj :: "heap \<Rightarrow> addr \<Rightarrow> string \<Rightarrow> partName \<Rightarrow> heap \<times> (error + addr)" where
  "onCurrentObj h this v partName =
     (let (h1, currentObj) = (if stringify (h ! this) \<noteq> [] then (h, this) else buildNewObj h this);
          (obj, thrown) = processElement (h1 ! currentObj) v partName;
          h2 = h1[currentObj := obj]
      in (h2, case thrown of Some e \<Rightarrow> Inl e | None \<Rightarrow> Inr currentObj))"

definition element :: "heap \<Rightarrow> addr \<Rightarrow> string \<Rightarrow> heap \<times> (error + addr)" where
  "element h this v =
     (if elementStr (h ! this) \<noteq> [] then (h, Inl (Error occurExeption))
      else onCurrentObj h this v Element)"

definition id_sel :: "heap \<Rightarrow> addr \<Rightarrow> string \<Rightarrow> heap \<times> (error + addr)" where
  "id_sel h this v =
     (if idStr (h ! this) \<noteq> [] then (h, Inl (Error occurExeption))
      else onCurrentObj h this v Id)"

definition class_sel :: "heap \<Rightarrow> addr \<Rightarrow> string \<Rightarrow> heap \<times> (error + addr)" where
  "class_sel h this v = onCurrentObj h this v Class"

definition attr :: "heap \<Rightarrow> addr \<Rightarrow> string \<Rightarrow> heap \<times> (error + addr)" where
  "attr h this attribute = onCurrentObj h this attribute Attr"

definition pseudoClass :: "heap \<Rightarrow> addr \<Rightarrow> string \<Rightarrow> heap \<times> (error + addr)" where
  "pseudoClass h this v = onCurrentObj h this v PseudoClass"

definition pseudoElement :: "heap \<Rightarrow> addr \<Rightarrow> string \<Rightarrow> heap \<times> (error + addr)" where
  "pseudoElement h this v =
     (if pseudoElementStr (h ! this) \<noteq> [] then (h, Inl (Error occurExeption))
      else onCurrentObj h this v PseudoElement)"

text \<open>\<open>combine\<close> builds a new object whose \<open>combineStr\<close> is computed from the two
  operands when the object literal is evaluated, and whose \<open>stringify\<close> returns that
  field. An operand is a builder object or such a combined object. The combined object has
  no method that writes to it, so it is modelled as a value.\<close>

datatype combined = Combined (combineStr: string)

datatype serializable = SelectorRef addr | CombinedObj combined

fun stringify_of :: "heap \<Rightarrow> serializable \<Rightarrow> string" where
  "stringify_of h (SelectorRef a) = stringify (h ! a)"
| "stringify_of h (CombinedObj n) = combineStr n"

definition combine :: "heap \<Rightarrow> serializable \<Rightarrow> string \<Rightarrow> serializable \<Rightarrow> heap \<times> serializable" where
  "combine h selector1 combinator selector2 =
     (h, CombinedObj (Combined (stringify_of h selector1 @ '' '' @ combinator @ '' ''
                                @ stringify_of h selector2)))"

subsection \<open>The earlier copy of \<open>attr\<close>\<close>

text \<open>
  The repository also holds an earlier copy of the module (the source file
  \<open>unnamed/part_001\<close>), without \<open>processElement\<close> and
  \<open>buildNewObj\<close>, whose \<open>attr\<close> does the same work inline. It differs in two places: the
  attributes already present are read from the receiver before the object to work on is
  chosen, and the descriptor is stored with \<open>attrObj[key] = value\<close> on an empty object
  literal instead of the computed key \<open>{ [key]: value }\<close>. The assignment reaches the
  inherited setter when the key is \<open>__proto__\<close>; the setter ignores a value that is neither
  an object nor \<open>null\<close>, so that \<open>attrObj\<close> then has no entry.
\<close>

definition attr_part_001 :: "heap \<Rightarrow> addr \<Rightarrow> string \<Rightarrow> heap \<times> (error + addr)" where
  "attr_part_001 h this attribute =
     (let currentAttr = js_slice (attrStr (h ! this)) 1 (-1);
          (key, val) = destructure2 (split_str CHR ''='' attribute);
          attrObj = (if to_str key = ''__proto__'' then [] else [(to_str key, val)]);
          attrArr = map (\<lambda>(keyAttr, valueAttr). keyAttr @ ''='' @ to_str valueAttr) attrObj;
          newAttrStr = (if currentAttr \<noteq> []
                        then ''['' @ currentAttr @ '' '' @ join '' '' attrArr @ '']''
                        else ''['' @ join '' '' attrArr @ '']'');
          (h1, currentObj) = (if stringify (h ! this) \<noteq> [] then (h, this)
                              else (h @ [cssSelectorBuilder], length h));
          obj = addPartToOrder ((h1 ! currentObj)\<lparr>attrStr := newAttrStr\<rparr>) Attr;
          h2 = h1[currentObj := obj]
      in (h2, case checkElemOrder obj of Some e \<Rightarrow> Inl e | None \<Rightarrow> Inr currentObj))"

subsection \<open>Chains of calls\<close>

text \<open>A client expression \<open>b.m1(v1).m2(v2)...\<close> calls each method on the object the
  previous one returned and stops at the first exception.\<close>

type_synonym call = "partName \<times> string"

fun invoke :: "heap \<Rightarrow> addr \<Rightarrow> call \<Rightarrow> heap \<times> (error + addr)" where
  "invoke h this (Element, v) = element h this v"
| "invoke h this (Id, v) = id_sel h this v"
| "invoke h this (Class, v) = class_sel h this v"
| "invoke h this (Attr, v) = attr h this v"
| "invoke h this (PseudoClass, v) = pseudoClass h this v"
| "invoke h this (PseudoElement, v) = pseudoElement h this v"

fun chain :: "heap \<Rightarrow> addr \<Rightarrow> call list \<Rightarrow> heap \<times> (error + addr)" where
  "chain h this [] = (h, Inr this)"
| "chain h this (c # cs) =
     (case invoke h this c of
        (h', Inl e) \<Rightarrow> (h', Inl e)
      | (h', Inr obj) \<Rightarrow> chain h' obj cs)"

subsection \<open>Notions used to state the properties\<close>

text \<open>The rank of a part name is its position in \<open>correctOrder\<close>. \<open>singular_text\<close> is
  the field that the guard at the head of \<open>element\<close>, \<open>id\<close> and \<open>pseudoElement\<close> tests
  (no guard, hence the empty text, for the other three methods). The three invariants
  relate an object to the calls made so far on its chain.\<close>

definition rank :: "partName \<Rightarrow> nat" where
  "rank k = nat (indexOf correctOrder k)"

fun singular_text :: "partName \<Rightarrow> selector \<Rightarrow> string" where
  "singular_text Element s = elementStr s"
| "singular_text Id s = idStr s"
| "singular_text PseudoElement s = pseudoElementStr s"
| "singular_text k s = []"

definition ordered_inv :: "partName list \<Rightarrow> selector \<Rightarrow> bool" where
  "ordered_inv ks s \<longleftrightarrow>
     sorted_wrt (\<lambda>a b. rank a < rank b) (partsOrder s) \<and>
     set (partsOrder s) \<subseteq> set ks \<and>
     (\<forall>k. singular_text k s \<noteq> [] \<longrightarrow> k \<in> set ks)"

fun singular :: "partName \<Rightarrow> bool" where
  "singular Element = True"
| "singular Id = True"
| "singular PseudoElement = True"
| "singular k = False"

definition seen_inv :: "call list \<Rightarrow> selector \<Rightarrow> bool" where
  "seen_inv calls s \<longleftrightarrow>
     (\<forall>c \<in> set calls.
        (fst c \<noteq> Element \<longrightarrow>
           fst c \<in> set (partsOrder s) \<and> stringify s \<noteq> [] \<and>
           (singular (fst c) \<longrightarrow> singular_text (fst c) s \<noteq> [])) \<and>
        (fst c = Element \<and> strip_LF (snd c) \<noteq> [] \<longrightarrow>
           elementStr s \<noteq> [] \<and> stringify s \<noteq> []))"

definition strict_inv :: "partName list \<Rightarrow> selector \<Rightarrow> bool" where
  "strict_inv ks s \<longleftrightarrow>
     sorted_wrt (\<lambda>a b. rank a < rank b) (partsOrder s) \<and> set (partsOrder s) \<subseteq> set ks"

text \<open>Two builder objects made from the builder, \<open>element('a')\<close> at address 1 and
  \<open>element('b')\<close> at address 2.\<close>

definition two_selectors :: heap where
  "two_selectors =
     fst (chain (fst (chain [cssSelectorBuilder] 0 [(Element, ''a'')])) 0 [(Element, ''b'')])"

section \<open>Auxiliary lemmas\<close>

lemma js_slice_butlast: "js_slice xs 0 (-1) = butlast xs"
  by (cases xs rule: rev_cases) (simp_all add: js_slice_def Let_def)

lemma js_slice_inner: "js_slice xs 1 (-1) = butlast (tl xs)"
proof (cases xs)
  case Nil
  then show ?thesis by (simp add: js_slice_def)
next
  case (Cons x ys)
  then show ?thesis
    by (cases ys rule: rev_cases) (simp_all add: js_slice_def Let_def)
qed

lemma rank_simps:
  "rank Element = 0" "rank Id = 1" "rank Class = 2" "rank Attr = 3"
  "rank PseudoClass = 4" "rank PseudoElement = 5"
  by (simp_all add: rank_def correctOrder_def)

lemma sample_iff:
  "item \<in> set (js_slice correctOrder 0 (indexOf correctOrder c)) \<longleftrightarrow> rank item < rank c"
  by (cases c; cases item; simp add: rank_simps; simp add: js_slice_def correctOrder_def)

lemma checkElemOrder_iff:
  "checkElemOrder s =
     (if partsOrder s = [] \<or> (\<forall>item \<in> set (butlast (partsOrder s)). rank item < rank (last (partsOrder s)))
      then None else Some (Error rangeExeption))"
  by (cases "partsOrder s = []")
     (simp_all add: checkElemOrder_def at_last_def js_slice_butlast sample_iff list_all_iff)

lemma strip_LF_append [simp]: "strip_LF (a @ b) = strip_LF a @ strip_LF b"
  by (simp add: strip_LF_def)

lemma strip_LF_Nil [simp]: "strip_LF [] = []"
  by (simp add: strip_LF_def)

lemma strip_LF_LF [simp]: "strip_LF [LF] = []"
  by (simp add: strip_LF_def)

lemma strip_LF_Cons_LF [simp]: "strip_LF (LF # s) = strip_LF s"
  by (simp add: strip_LF_def)

lemma stringify_eq:
  "stringify s = strip_LF (elementStr s @ idStr s @ classesStr s @ attrStr s
                           @ pseudoClassesStr s @ pseudoElementStr s)"
  by (simp add: stringify_def)

lemma strip_LF_id: "LF \<notin> set s \<Longrightarrow> strip_LF s = s"
  unfolding strip_LF_def by (induction s) auto

lemma split_str_no_sep: "c \<notin> set d \<Longrightarrow> split_str c d = [d]"
  by (induction d) auto


lemma strip_LF_Cons_other: "c \<noteq> LF \<Longrightarrow> strip_LF (c # s) = c # strip_LF s"
  by (simp add: strip_LF_def)

lemma LF_neq [simp]:
  "CHR ''#'' \<noteq> LF" "CHR ''.'' \<noteq> LF" "CHR ''['' \<noteq> LF" "CHR '':'' \<noteq> LF"
  by (simp_all add: LF_def)

lemma processElement_fst:
  "fst (processElement s v k) = addPartToOrder (propLib_assign k (currentValue s v k) s) k"
  by (simp add: processElement_def Let_def)

lemma processElement_snd:
  "snd (processElement s v k) = checkElemOrder (addPartToOrder (propLib_assign k (currentValue s v k) s) k)"
  by (simp add: processElement_def Let_def)

lemma partsOrder_propLib_assign [simp]: "partsOrder (propLib_assign k v s) = partsOrder s"
  by (cases k) simp_all

lemma partsOrder_addPartToOrder:
  "partsOrder (addPartToOrder s k) =
     (if partsOrder s \<noteq> [] \<and> last (partsOrder s) = k then partsOrder s else partsOrder s @ [k])"
  by (auto simp: addPartToOrder_def at_last_def)

lemma partsOrder_processElement:
  "partsOrder (fst (processElement s v k)) =
     (if partsOrder s \<noteq> [] \<and> last (partsOrder s) = k then partsOrder s else partsOrder s @ [k])"
  by (simp add: processElement_fst partsOrder_addPartToOrder)

lemma processElement_fresh_snd: "snd (processElement cssSelectorBuilder v k) = None"
  by (simp add: processElement_snd checkElemOrder_iff partsOrder_addPartToOrder cssSelectorBuilder_def)

lemma onCurrentObj_old:
  "stringify (h ! this) \<noteq> [] \<Longrightarrow>
   onCurrentObj h this v k =
     (h[this := fst (processElement (h ! this) v k)],
      case snd (processElement (h ! this) v k) of Some e \<Rightarrow> Inl e | None \<Rightarrow> Inr this)"
  by (simp add: onCurrentObj_def Let_def split: prod.splits)

lemma onCurrentObj_new:
  "stringify (h ! this) = [] \<Longrightarrow>
   onCurrentObj h this v k = (h @ [fst (processElement cssSelectorBuilder v k)], Inr (length h))"
  using processElement_fresh_snd [of v k]
  by (auto simp: onCurrentObj_def buildNewObj_def Let_def split: prod.splits)


lemma invoke_eq:
  "invoke h this (k, v) =
     (if singular_text k (h ! this) \<noteq> [] then (h, Inl (Error occurExeption))
      else onCurrentObj h this v k)"
  by (cases k)
     (simp_all add: element_def id_sel_def class_sel_def attr_def pseudoClass_def
        pseudoElement_def)

lemma rank_inj: "rank a = rank b \<Longrightarrow> a = b"
  by (cases a; cases b; simp add: rank_simps)

lemma strict_butlast_below_last:
  "sorted_wrt (\<lambda>a b. rank a < rank b) xs \<Longrightarrow> x \<in> set (butlast xs) \<Longrightarrow> rank x < rank (last xs)"
proof (cases xs rule: rev_cases)
  case Nil
  assume "x \<in> set (butlast xs)"
  with Nil show ?thesis by simp
next
  case (snoc ys y)
  assume "sorted_wrt (\<lambda>a b. rank a < rank b) xs" "x \<in> set (butlast xs)"
  with snoc show ?thesis by (simp add: sorted_wrt_append)
qed

lemma strict_all_le_last:
  "sorted_wrt (\<lambda>a b. rank a < rank b) xs \<Longrightarrow> x \<in> set xs \<Longrightarrow> rank x \<le> rank (last xs)"
proof (cases xs rule: rev_cases)
  case Nil
  assume "x \<in> set xs"
  with Nil show ?thesis by simp
next
  case (snoc ys y)
  assume "sorted_wrt (\<lambda>a b. rank a < rank b) xs" "x \<in> set xs"
  with snoc show ?thesis by (auto simp: sorted_wrt_append less_imp_le)
qed

lemma singular_text_processElement:
  "singular_text k' (fst (processElement s v k)) =
     (if k' = k \<and> singular k then currentValue s v k else singular_text k' s)"
  by (cases k; cases k'; simp add: processElement_fst addPartToOrder_def)

lemma singular_text_fresh: "singular_text k cssSelectorBuilder = []"
  by (cases k) (simp_all add: cssSelectorBuilder_def)

lemma ordered_inv_fresh: "ordered_inv ks cssSelectorBuilder"
  by (simp add: ordered_inv_def singular_text_fresh) (simp add: cssSelectorBuilder_def)

lemma ordered_step:
  assumes inv: "ordered_inv ks s" and le: "\<forall>k' \<in> set ks. rank k' \<le> rank k"
  shows "snd (processElement s v k) = None \<and> ordered_inv (ks @ [k]) (fst (processElement s v k))"
proof -
  let ?po = "partsOrder s"
  let ?po' = "partsOrder (fst (processElement s v k))"
  from inv have st: "sorted_wrt (\<lambda>a b. rank a < rank b) ?po" and sub: "set ?po \<subseteq> set ks"
    and sg: "\<forall>k. singular_text k s \<noteq> [] \<longrightarrow> k \<in> set ks"
    by (simp_all add: ordered_inv_def)
  have below: "rank x < rank k" if x: "x \<in> set ?po" and nl: "last ?po \<noteq> k" for x
  proof -
    from x have ne: "?po \<noteq> []" by auto
    then have "last ?po \<in> set ks" using sub by auto
    then have l: "rank (last ?po) \<le> rank k" using le by blast
    from strict_all_le_last [OF st x] have xl: "rank x \<le> rank (last ?po)" .
    show ?thesis
    proof (rule ccontr)
      assume "\<not> rank x < rank k"
      with xl l have "rank (last ?po) = rank k" by simp
      then show False using nl rank_inj by blast
    qed
  qed
  have st': "sorted_wrt (\<lambda>a b. rank a < rank b) ?po'"
    using st below by (auto simp: partsOrder_processElement sorted_wrt_append)
  have ne': "?po' \<noteq> []" by (simp add: partsOrder_processElement)
  have chk: "snd (processElement s v k) = None"
    using strict_butlast_below_last [OF st']
    by (simp add: processElement_snd checkElemOrder_iff processElement_fst [symmetric])
  have sub': "set ?po' \<subseteq> set (ks @ [k])"
    using sub by (auto simp: partsOrder_processElement)
  have sg': "\<forall>k'. singular_text k' (fst (processElement s v k)) \<noteq> [] \<longrightarrow> k' \<in> set (ks @ [k])"
    using sg by (auto simp: singular_text_processElement)
  from chk st' sub' sg' show ?thesis by (simp add: ordered_inv_def)
qed

lemma ordered_invoke:
  assumes "this < length h" and inv: "ordered_inv ks (h ! this)"
    and le: "\<forall>k' \<in> set ks. rank k' \<le> rank k" and sg: "singular k \<longrightarrow> k \<notin> set ks"
  shows "\<exists>h1 a1. invoke h this (k, v) = (h1, Inr a1) \<and> a1 < length h1
           \<and> ordered_inv (ks @ [k]) (h1 ! a1)"
proof -
  have nog: "singular_text k (h ! this) = []"
  proof (cases "singular k")
    case True
    with sg inv show ?thesis by (auto simp: ordered_inv_def)
  next
    case False
    then show ?thesis by (cases k) simp_all
  qed
  show ?thesis
  proof (cases "stringify (h ! this) = []")
    case True
    from ordered_step [OF ordered_inv_fresh le, of v]
    show ?thesis using nog True by (simp add: invoke_eq onCurrentObj_new)
  next
    case False
    from ordered_step [OF inv le, of v]
    show ?thesis using nog False assms(1) by (simp add: invoke_eq onCurrentObj_old)
  qed
qed

lemma ordered_chain:
  "this < length h \<Longrightarrow> ordered_inv ks (h ! this) \<Longrightarrow>
   sorted (map rank (ks @ map fst calls)) \<Longrightarrow>
   distinct (filter singular (ks @ map fst calls)) \<Longrightarrow>
   \<exists>h' a. chain h this calls = (h', Inr a) \<and> a < length h'"
proof (induction calls arbitrary: h this ks)
  case Nil
  then show ?case by simp
next
  case (Cons c calls)
  obtain k v where c: "c = (k, v)" by (cases c)
  from Cons.prems(3) have le: "\<forall>k' \<in> set ks. rank k' \<le> rank k"
    by (auto simp: c sorted_append)
  from Cons.prems(4) have sg: "singular k \<longrightarrow> k \<notin> set ks"
    by (auto simp: c)
  from ordered_invoke [OF Cons.prems(1,2) le sg, of v]
  obtain h1 a1 where inv: "invoke h this (k, v) = (h1, Inr a1)" and a1: "a1 < length h1"
    and oi: "ordered_inv (ks @ [k]) (h1 ! a1)" by blast
  from Cons.prems(3,4) have "sorted (map rank ((ks @ [k]) @ map fst calls))"
    and "distinct (filter singular ((ks @ [k]) @ map fst calls))"
    by (simp_all add: c)
  from Cons.IH [OF a1 oi this] show ?case by (simp add: c inv)
qed


lemma stringify_addPartToOrder [simp]: "stringify (addPartToOrder s k) = stringify s"
  by (simp add: addPartToOrder_def stringify_def)

lemma fields_addPartToOrder [simp]:
  "elementStr (addPartToOrder s k) = elementStr s"
  "idStr (addPartToOrder s k) = idStr s"
  "classesStr (addPartToOrder s k) = classesStr s"
  "attrStr (addPartToOrder s k) = attrStr s"
  "pseudoClassesStr (addPartToOrder s k) = pseudoClassesStr s"
  "pseudoElementStr (addPartToOrder s k) = pseudoElementStr s"
  by (simp_all add: addPartToOrder_def)

lemma stringify_processElement:
  "stringify (fst (processElement s v k)) = stringify (propLib_assign k (currentValue s v k) s)"
  by (simp add: processElement_fst)

lemma attr_value_nonempty: "strip_LF (currentValue s v Attr) \<noteq> []"
  by (simp add: currentValue_def Let_def strip_LF_Cons_other split: prod.splits)

lemma stringify_after_other:
  "k \<noteq> Element \<Longrightarrow> stringify (fst (processElement s v k)) \<noteq> []"
proof (cases k)
  case Attr
  then show ?thesis using attr_value_nonempty [of s v]
    unfolding stringify_processElement by (simp add: stringify_eq)
qed (unfold stringify_processElement, simp_all add: stringify_eq currentValue_def strip_LF_Cons_other)

lemma stringify_after_keep:
  assumes "stringify s \<noteq> []" "singular_text k s = []"
  shows "stringify (fst (processElement s v k)) \<noteq> []"
proof (cases "k = Element")
  case True
  with assms show ?thesis
    unfolding stringify_processElement by (simp add: stringify_eq currentValue_def)
next
  case False
  then show ?thesis by (rule stringify_after_other)
qed

lemma elementStr_processElement:
  "elementStr (fst (processElement s v k)) = (if k = Element then v else elementStr s)"
  by (cases k) (simp_all add: processElement_fst addPartToOrder_def currentValue_def)

lemma singular_value_nonempty:
  "k \<noteq> Element \<Longrightarrow> singular k \<Longrightarrow> currentValue s v k \<noteq> []"
  by (cases k) (simp_all add: currentValue_def)

lemma in_partsOrder_after: "k \<in> set (partsOrder (fst (processElement s v k)))"
  by (auto simp: partsOrder_processElement)

lemma partsOrder_mono: "x \<in> set (partsOrder s) \<Longrightarrow> x \<in> set (partsOrder (fst (processElement s v k)))"
  by (auto simp: partsOrder_processElement)

lemma seen_new_call:
  "seen_inv [(k, v)] (fst (processElement s v k))"
proof -
  have 1: "stringify (fst (processElement s v k)) \<noteq> []" if "k \<noteq> Element"
    using that by (rule stringify_after_other)
  have 2: "singular_text k (fst (processElement s v k)) \<noteq> []" if "k \<noteq> Element" "singular k"
    using that singular_value_nonempty [of k s v] by (simp add: singular_text_processElement)
  have 3: "elementStr (fst (processElement s v k)) \<noteq> []" if "k = Element" "strip_LF v \<noteq> []"
    using that by (auto simp: elementStr_processElement)
  have 4: "stringify (fst (processElement s v k)) \<noteq> []" if "k = Element" "strip_LF v \<noteq> []"
    using that unfolding stringify_processElement by (simp add: stringify_eq currentValue_def)
  from 1 2 3 4 in_partsOrder_after [of k s v] show ?thesis
    by (simp add: seen_inv_def)
qed

lemma seen_inv_empty_text:
  "seen_inv calls s \<Longrightarrow> stringify s = [] \<Longrightarrow> seen_inv calls s'"
  by (auto simp: seen_inv_def)

lemma seen_inv_snoc:
  "seen_inv (calls @ [c]) s \<longleftrightarrow> seen_inv calls s \<and> seen_inv [c] s"
  by (auto simp: seen_inv_def)

lemma seen_step_old:
  assumes inv: "seen_inv calls s" and g: "singular_text k s = []" and ne: "stringify s \<noteq> []"
  shows "seen_inv calls (fst (processElement s v k))"
  unfolding seen_inv_def
proof (intro ballI conjI impI)
  fix c assume c: "c \<in> set calls" and nE: "fst c \<noteq> Element"
  from inv c nE have old: "fst c \<in> set (partsOrder s)" by (auto simp: seen_inv_def)
  then show "fst c \<in> set (partsOrder (fst (processElement s v k)))" by (rule partsOrder_mono)
  show "stringify (fst (processElement s v k)) \<noteq> []" by (rule stringify_after_keep [OF ne g])
  assume sg: "singular (fst c)"
  with inv c nE have t: "singular_text (fst c) s \<noteq> []" by (auto simp: seen_inv_def)
  with g have "fst c \<noteq> k" by auto
  with t show "singular_text (fst c) (fst (processElement s v k)) \<noteq> []"
    by (simp add: singular_text_processElement)
next
  fix c assume c: "c \<in> set calls" and E: "fst c = Element \<and> strip_LF (snd c) \<noteq> []"
  from inv c E have e: "elementStr s \<noteq> []" by (auto simp: seen_inv_def)
  with g have "k \<noteq> Element" by auto
  with e show "elementStr (fst (processElement s v k)) \<noteq> []"
    by (simp add: elementStr_processElement)
  show "stringify (fst (processElement s v k)) \<noteq> []" by (rule stringify_after_keep [OF ne g])
qed

lemma seen_invoke:
  assumes inv: "seen_inv calls (h ! this)" and lt: "this < length h"
    and ok: "invoke h this (k, v) = (h1, Inr a1)"
  shows "a1 < length h1 \<and> seen_inv (calls @ [(k, v)]) (h1 ! a1)"
proof -
  from ok have g: "singular_text k (h ! this) = []"
    by (auto simp: invoke_eq split: if_splits)
  show ?thesis
  proof (cases "stringify (h ! this) = []")
    case True
    with ok g have h1: "h1 = h @ [fst (processElement cssSelectorBuilder v k)]" and a1: "a1 = length h"
      by (simp_all add: invoke_eq onCurrentObj_new)
    from seen_inv_empty_text [OF inv True]
    have "seen_inv calls (fst (processElement cssSelectorBuilder v k))" .
    moreover have "seen_inv [(k, v)] (fst (processElement cssSelectorBuilder v k))"
      by (rule seen_new_call)
    ultimately show ?thesis by (simp add: h1 a1 seen_inv_snoc)
  next
    case False
    with ok g have h1: "h1 = h[this := fst (processElement (h ! this) v k)]" and a1: "a1 = this"
      by (auto simp: invoke_eq onCurrentObj_old split: option.splits)
    have "seen_inv calls (fst (processElement (h ! this) v k))"
      by (rule seen_step_old [OF inv g False])
    moreover have "seen_inv [(k, v)] (fst (processElement (h ! this) v k))"
      by (rule seen_new_call)
    ultimately show ?thesis using lt by (simp add: h1 a1 seen_inv_snoc)
  qed
qed

lemma seen_chain:
  "this < length h \<Longrightarrow> seen_inv pre (h ! this) \<Longrightarrow> chain h this calls = (h', Inr a) \<Longrightarrow>
   a < length h' \<and> seen_inv (pre @ calls) (h' ! a)"
proof (induction calls arbitrary: h this pre)
  case Nil
  then show ?case by simp
next
  case (Cons c calls)
  obtain k v where c: "c = (k, v)" by (cases c)
  obtain h1 r where inv: "invoke h this (k, v) = (h1, r)" by (cases "invoke h this (k, v)")
  with Cons.prems(3) obtain a1 where r: "r = Inr a1" and rest: "chain h1 a1 calls = (h', Inr a)"
    by (cases r) (simp_all add: c)
  from seen_invoke [OF Cons.prems(2,1) inv [unfolded r]]
  have a1: "a1 < length h1" and si: "seen_inv (pre @ [(k, v)]) (h1 ! a1)" by simp_all
  from Cons.IH [OF a1 si rest] show ?case by (simp add: c)
qed

lemma in_butlast: "x \<in> set xs \<Longrightarrow> x \<noteq> last xs \<Longrightarrow> x \<in> set (butlast xs)"
  by (cases xs rule: rev_cases) auto

lemma out_of_order_step:
  assumes k': "k' \<in> set (partsOrder s)" and lt: "rank k < rank k'"
  shows "snd (processElement s v k) = Some (Error rangeExeption)"
proof -
  let ?po' = "partsOrder (addPartToOrder (propLib_assign k (currentValue s v k) s) k)"
  from lt have kk: "k' \<noteq> k" by auto
  have l: "last ?po' = k" and ne: "?po' \<noteq> []"
    by (auto simp: partsOrder_addPartToOrder)
  have "k' \<in> set ?po'" using k' by (auto simp: partsOrder_addPartToOrder)
  with kk l have "k' \<in> set (butlast ?po')" by (auto intro: in_butlast)
  moreover from lt have "\<not> rank k' < rank k" by simp
  ultimately have "\<not> (\<forall>item \<in> set (butlast ?po'). rank item < rank (last ?po'))"
    using l by auto
  with ne show ?thesis
    by (simp add: processElement_snd checkElemOrder_iff)
qed

lemma invoke_frame:
  "p < length h \<Longrightarrow> p \<noteq> this \<Longrightarrow> fst (invoke h this c) ! p = h ! p"
  by (cases c; cases "stringify (h ! this) = []")
     (auto simp: invoke_eq onCurrentObj_new onCurrentObj_old nth_append)

lemma invoke_fresh:
  "stringify (h ! this) = [] \<Longrightarrow>
   invoke h this c = (h, Inl (Error occurExeption)) \<or>
   invoke h this c = (h @ [fst (processElement cssSelectorBuilder (snd c) (fst c))], Inr (length h))"
  by (cases c) (auto simp: invoke_eq onCurrentObj_new)

lemma invoke_old:
  "stringify (h ! this) \<noteq> [] \<Longrightarrow>
   fst (invoke h this c) = h \<or> fst (invoke h this c) = h[this := fst (processElement (h ! this) (snd c) (fst c))]"
  by (cases c) (auto simp: invoke_eq onCurrentObj_old)

lemma invoke_old_addr:
  "stringify (h ! this) \<noteq> [] \<Longrightarrow> snd (invoke h this c) = Inr a \<Longrightarrow> a = this"
  by (cases c) (auto simp: invoke_eq onCurrentObj_old split: if_splits option.splits)

lemma chain_frame:
  "this < length h \<Longrightarrow> n \<le> this \<or> stringify (h ! this) = [] \<Longrightarrow> n \<le> length h \<Longrightarrow>
   take n (fst (chain h this cs)) = take n h"
proof (induction cs arbitrary: h this)
  case Nil
  then show ?case by simp
next
  case (Cons c cs)
  obtain h1 r where inv: "invoke h this c = (h1, r)" by (cases "invoke h this c")
  show ?case
  proof (cases "stringify (h ! this) = []")
    case True
    from invoke_fresh [OF True, of c] inv
    consider "h1 = h" "r = Inl (Error occurExeption)"
      | "h1 = h @ [fst (processElement cssSelectorBuilder (snd c) (fst c))]" "r = Inr (length h)"
      by auto
    then show ?thesis
    proof cases
      case 1
      then show ?thesis by (simp add: inv)
    next
      case 2
      have "take n (fst (chain h1 (length h) cs)) = take n h1"
        by (rule Cons.IH) (use 2 Cons.prems in auto)
      with 2 Cons.prems(3) show ?thesis by (simp add: inv)
    qed
  next
    case False
    with Cons.prems(2) have nt: "n \<le> this" by simp
    from invoke_old [OF False, of c] inv
    have h1: "h1 = h \<or> h1 = h[this := fst (processElement (h ! this) (snd c) (fst c))]" by simp
    then have len: "length h1 = length h" and tk: "take n h1 = take n h"
      using nt by auto
    show ?thesis
    proof (cases r)
      case (Inl e)
      then show ?thesis using tk by (simp add: inv)
    next
      case (Inr a)
      with invoke_old_addr [OF False, of c a] inv have a: "a = this" by simp
      have "take n (fst (chain h1 this cs)) = take n h1"
        by (rule Cons.IH) (use len nt Cons.prems in auto)
      with tk show ?thesis by (simp add: inv Inr a)
    qed
  qed
qed

lemma strip_LF_outer_le:
  "length (strip_LF a) \<le> length (strip_LF (butlast (tl a))) + 2"
proof (cases a)
  case Nil
  then show ?thesis by simp
next
  case (Cons x t)
  then show ?thesis
    by (cases t rule: rev_cases) (simp_all add: strip_LF_def)
qed

lemma more_neq_LF [simp]:
  "CHR '' '' \<noteq> LF" "CHR '']'' \<noteq> LF" "CHR ''='' \<noteq> LF"
  by (simp_all add: LF_def)

lemma attr_text_longer:
  "length (strip_LF (attrStr s)) < length (strip_LF (currentValue s v Attr))"
proof -
  obtain key val where kv: "destructure2 (split_str CHR ''='' v) = (key, val)"
    by (cases "destructure2 (split_str CHR ''='' v)")
  from strip_LF_outer_le [of "attrStr s"] show ?thesis
    by (auto simp: currentValue_def kv js_slice_inner strip_LF_Cons_other Let_def)
qed

lemma stringify_longer:
  assumes "k \<noteq> Element" and "singular_text k s = []"
  shows "length (stringify s) < length (stringify (propLib_assign k (currentValue s v k) s))"
proof (cases k)
  case Attr
  then show ?thesis using attr_text_longer [of s v] by (simp add: stringify_eq)
qed (use assms in \<open>simp_all add: stringify_eq currentValue_def strip_LF_Cons_other\<close>)

lemma strict_inv_fresh: "strict_inv ks cssSelectorBuilder"
  by (simp add: strict_inv_def cssSelectorBuilder_def)

lemma strict_after_success:
  assumes st: "sorted_wrt (\<lambda>a b. rank a < rank b) (partsOrder s)"
    and ok: "snd (processElement s v k) = None"
  shows "sorted_wrt (\<lambda>a b. rank a < rank b) (partsOrder (fst (processElement s v k)))"
proof (cases "partsOrder s \<noteq> [] \<and> last (partsOrder s) = k")
  case True
  with st show ?thesis by (simp add: partsOrder_processElement)
next
  case False
  then have po: "partsOrder (addPartToOrder (propLib_assign k (currentValue s v k) s) k)
                   = partsOrder s @ [k]"
    by (simp add: partsOrder_addPartToOrder)
  from ok have "\<forall>item \<in> set (partsOrder s). rank item < rank k"
    by (simp add: processElement_snd checkElemOrder_iff po split: if_splits)
  with st False show ?thesis
    by (simp add: partsOrder_processElement sorted_wrt_append)
qed

lemma strict_invoke:
  assumes inv: "strict_inv ks (h ! this)" and lt: "this < length h"
    and ok: "invoke h this (k, v) = (h1, Inr a1)"
  shows "a1 < length h1 \<and> strict_inv (ks @ [k]) (h1 ! a1)"
proof -
  from ok have g: "singular_text k (h ! this) = []"
    by (auto simp: invoke_eq split: if_splits)
  show ?thesis
  proof (cases "stringify (h ! this) = []")
    case True
    with ok g have h1: "h1 = h @ [fst (processElement cssSelectorBuilder v k)]" and a1: "a1 = length h"
      by (simp_all add: invoke_eq onCurrentObj_new)
    have "sorted_wrt (\<lambda>a b. rank a < rank b) (partsOrder (fst (processElement cssSelectorBuilder v k)))"
      by (rule strict_after_success) (simp_all add: cssSelectorBuilder_def processElement_fresh_snd [unfolded cssSelectorBuilder_def])
    moreover have "set (partsOrder (fst (processElement cssSelectorBuilder v k))) \<subseteq> set (ks @ [k])"
      by (auto simp: partsOrder_processElement cssSelectorBuilder_def)
    ultimately show ?thesis by (simp add: h1 a1 strict_inv_def)
  next
    case False
    with ok g have h1: "h1 = h[this := fst (processElement (h ! this) v k)]" and a1: "a1 = this"
      and none: "snd (processElement (h ! this) v k) = None"
      by (auto simp: invoke_eq onCurrentObj_old split: option.splits)
    from inv have st: "sorted_wrt (\<lambda>a b. rank a < rank b) (partsOrder (h ! this))"
      and sub: "set (partsOrder (h ! this)) \<subseteq> set ks"
      by (simp_all add: strict_inv_def)
    have "sorted_wrt (\<lambda>a b. rank a < rank b) (partsOrder (fst (processElement (h ! this) v k)))"
      by (rule strict_after_success [OF st none])
    moreover have "set (partsOrder (fst (processElement (h ! this) v k))) \<subseteq> set (ks @ [k])"
      using sub by (auto simp: partsOrder_processElement)
    ultimately show ?thesis using lt by (simp add: h1 a1 strict_inv_def)
  qed
qed

lemma strict_chain:
  "this < length h \<Longrightarrow> strict_inv pre (h ! this) \<Longrightarrow> chain h this calls = (h', Inr a) \<Longrightarrow>
   a < length h' \<and> strict_inv (pre @ map fst calls) (h' ! a)"
proof (induction calls arbitrary: h this pre)
  case Nil
  then show ?case by simp
next
  case (Cons c calls)
  obtain k v where c: "c = (k, v)" by (cases c)
  obtain h1 r where inv: "invoke h this (k, v) = (h1, r)" by (cases "invoke h this (k, v)")
  with Cons.prems(3) obtain a1 where r: "r = Inr a1" and rest: "chain h1 a1 calls = (h', Inr a)"
    by (cases r) (simp_all add: c)
  from strict_invoke [OF Cons.prems(2,1) inv [unfolded r]]
  have a1: "a1 < length h1" and si: "strict_inv (pre @ [k]) (h1 ! a1)" by simp_all
  from Cons.IH [OF a1 si rest] show ?case by (simp add: c)
qed

lemma strict_step:
  assumes st: "sorted_wrt (\<lambda>a b. rank a < rank b) (partsOrder s)"
    and le: "\<forall>x \<in> set (partsOrder s). rank x \<le> rank k"
  shows "snd (processElement s v k) = None"
proof -
  let ?po = "partsOrder s"
  let ?po' = "partsOrder (fst (processElement s v k))"
  have below: "rank x < rank k" if x: "x \<in> set ?po" and nl: "last ?po \<noteq> k" for x
  proof -
    from x have "?po \<noteq> []" by auto
    then have l: "rank (last ?po) \<le> rank k" using le by simp
    from strict_all_le_last [OF st x] have xl: "rank x \<le> rank (last ?po)" .
    show ?thesis
    proof (rule ccontr)
      assume "\<not> rank x < rank k"
      with xl l have "rank (last ?po) = rank k" by simp
      then show False using nl rank_inj by blast
    qed
  qed
  have st': "sorted_wrt (\<lambda>a b. rank a < rank b) ?po'"
    using st below by (auto simp: partsOrder_processElement sorted_wrt_append)
  show ?thesis
    using strict_butlast_below_last [OF st']
    by (simp add: processElement_snd checkElemOrder_iff processElement_fst [symmetric])
qed

lemma attr_effect:
  assumes "CHR ''='' \<notin> set d"
  shows "fst (processElement s d Attr)
           = s\<lparr>attrStr := (if js_slice (attrStr s) 1 (-1) \<noteq> []
                           then ''['' @ js_slice (attrStr s) 1 (-1) @ '' '' @ d @ ''=undefined]''
                           else ''['' @ d @ ''=undefined]''),
               partsOrder := (if partsOrder s \<noteq> [] \<and> last (partsOrder s) = Attr
                              then partsOrder s else partsOrder s @ [Attr])\<rparr>"
  using split_str_no_sep [OF assms]
  by (simp add: processElement_fst currentValue_def addPartToOrder_def at_last_def)

lemma attr_thrown:
  "snd (processElement s d Attr)
     = (if \<forall>item \<in> set (butlast (if partsOrder s \<noteq> [] \<and> last (partsOrder s) = Attr
                                   then partsOrder s else partsOrder s @ [Attr])).
             rank item < rank Attr
        then None else Some (Error rangeExeption))"
  by (simp add: processElement_snd checkElemOrder_iff partsOrder_addPartToOrder)

text \<open>
  The earlier copy of \<open>attr\<close> returns what \<open>attr\<close> returns whenever the key is not
  \<open>__proto__\<close> and a receiver with an empty \<open>stringify\<close> has no attribute text, as the
  builder has.
\<close>

lemma attr_part_001_agrees:
  assumes "to_str (fst (destructure2 (split_str CHR ''='' d))) \<noteq> ''__proto__''"
    and "stringify (h ! this) = [] \<longrightarrow> attrStr (h ! this) = []"
  shows "attr_part_001 h this d = attr h this d"
proof -
  obtain key val where kv: "destructure2 (split_str CHR ''='' d) = (key, val)"
    by (cases "destructure2 (split_str CHR ''='' d)")
  with assms(1) have key: "to_str key \<noteq> ''__proto__''" by simp
  show ?thesis
  proof (cases "stringify (h ! this) = []")
    case True
    with assms(2) have "attrStr (h ! this) = []" by simp
    with True key show ?thesis
      by (simp add: attr_part_001_def attr_def onCurrentObj_def buildNewObj_def
            processElement_def currentValue_def cssSelectorBuilder_def kv js_slice_inner Let_def)
  next
    case False
    with key show ?thesis
      by (simp add: attr_part_001_def attr_def onCurrentObj_def processElement_def
            currentValue_def kv Let_def)
  qed
qed

section \<open>The properties\<close>

subsection \<open>C1: what \<open>stringify\<close> returns\<close>

text \<open>
  The claim C1 says that \<open>stringify\<close> returns the plain concatenation of the six rendered
  texts. The code removes every line feed from the text it has assembled, those of the
  fragments included: after \<open>element('a\n b')\<close> (a line feed between the two letters) the
  stored element text keeps its line feed and \<open>stringify\<close> returns \<open>ab\<close>.
\<close>

theorem stringify_line_feed_counterexample:
  "stringify (fst (chain [cssSelectorBuilder] 0 [(Element, [CHR ''a'', LF, CHR ''b''])]) ! 1)
     \<noteq> elementStr (fst (chain [cssSelectorBuilder] 0 [(Element, [CHR ''a'', LF, CHR ''b''])]) ! 1)
       @ idStr (fst (chain [cssSelectorBuilder] 0 [(Element, [CHR ''a'', LF, CHR ''b''])]) ! 1)
       @ classesStr (fst (chain [cssSelectorBuilder] 0 [(Element, [CHR ''a'', LF, CHR ''b''])]) ! 1)
       @ attrStr (fst (chain [cssSelectorBuilder] 0 [(Element, [CHR ''a'', LF, CHR ''b''])]) ! 1)
       @ pseudoClassesStr (fst (chain [cssSelectorBuilder] 0 [(Element, [CHR ''a'', LF, CHR ''b''])]) ! 1)
       @ pseudoElementStr (fst (chain [cssSelectorBuilder] 0 [(Element, [CHR ''a'', LF, CHR ''b''])]) ! 1)
   \<and> snd (chain [cssSelectorBuilder] 0 [(Element, [CHR ''a'', LF, CHR ''b''])]) = Inr 1
   \<and> elementStr (fst (chain [cssSelectorBuilder] 0 [(Element, [CHR ''a'', LF, CHR ''b''])]) ! 1)
     = [CHR ''a'', LF, CHR ''b'']
   \<and> stringify (fst (chain [cssSelectorBuilder] 0 [(Element, [CHR ''a'', LF, CHR ''b''])]) ! 1)
     = ''ab''"
  by code_simp

text \<open>
  C1, as the code has it: for every selector object, \<open>stringify\<close> is the concatenation in
  the order element, id, classes, attributes, pseudo-classes, pseudo-element of the six
  texts (the empty text for a kind never appended, no separator) with every line feed
  removed, hence the plain concatenation whenever no text contains a line feed;
  \<open>id('main').class('container').class('editable')\<close> on the builder gives
  \<open>#main.container.editable\<close>, and the builder itself gives the empty text.
\<close>

theorem stringify_canonical:
  "stringify s = strip_LF (elementStr s @ idStr s @ classesStr s @ attrStr s
                           @ pseudoClassesStr s @ pseudoElementStr s)
   \<and> (LF \<notin> set (elementStr s @ idStr s @ classesStr s @ attrStr s
                    @ pseudoClassesStr s @ pseudoElementStr s) \<longrightarrow>
        stringify s = elementStr s @ idStr s @ classesStr s @ attrStr s
                      @ pseudoClassesStr s @ pseudoElementStr s)
   \<and> snd (chain [cssSelectorBuilder] 0
             [(Id, ''main''), (Class, ''container''), (Class, ''editable'')]) = Inr 1
   \<and> stringify (fst (chain [cssSelectorBuilder] 0
             [(Id, ''main''), (Class, ''container''), (Class, ''editable'')]) ! 1)
       = ''#main.container.editable''
   \<and> stringify cssSelectorBuilder = []"
proof (intro conjI impI)
  show "stringify s = strip_LF (elementStr s @ idStr s @ classesStr s @ attrStr s
                           @ pseudoClassesStr s @ pseudoElementStr s)"
    by (rule stringify_eq)
next
  assume "LF \<notin> set (elementStr s @ idStr s @ classesStr s @ attrStr s
                    @ pseudoClassesStr s @ pseudoElementStr s)"
  then show "stringify s = elementStr s @ idStr s @ classesStr s @ attrStr s
                      @ pseudoClassesStr s @ pseudoElementStr s"
    unfolding stringify_eq by (rule strip_LF_id)
next
  show "snd (chain [cssSelectorBuilder] 0
             [(Id, ''main''), (Class, ''container''), (Class, ''editable'')]) = Inr 1"
    by code_simp
next
  show "stringify (fst (chain [cssSelectorBuilder] 0
             [(Id, ''main''), (Class, ''container''), (Class, ''editable'')]) ! 1)
       = ''#main.container.editable''"
    by code_simp
next
  show "stringify cssSelectorBuilder = []"
    by code_simp
qed

theorem stringify_canonical_witness:
  "LF \<notin> set (elementStr (cssSelectorBuilder\<lparr>idStr := ''#main''\<rparr>)
              @ idStr (cssSelectorBuilder\<lparr>idStr := ''#main''\<rparr>)
              @ classesStr (cssSelectorBuilder\<lparr>idStr := ''#main''\<rparr>)
              @ attrStr (cssSelectorBuilder\<lparr>idStr := ''#main''\<rparr>)
              @ pseudoClassesStr (cssSelectorBuilder\<lparr>idStr := ''#main''\<rparr>)
              @ pseudoElementStr (cssSelectorBuilder\<lparr>idStr := ''#main''\<rparr>))
   \<and> stringify (cssSelectorBuilder\<lparr>idStr := ''#main''\<rparr>)
       = elementStr (cssSelectorBuilder\<lparr>idStr := ''#main''\<rparr>)
         @ idStr (cssSelectorBuilder\<lparr>idStr := ''#main''\<rparr>)
         @ classesStr (cssSelectorBuilder\<lparr>idStr := ''#main''\<rparr>)
         @ attrStr (cssSelectorBuilder\<lparr>idStr := ''#main''\<rparr>)
         @ pseudoClassesStr (cssSelectorBuilder\<lparr>idStr := ''#main''\<rparr>)
         @ pseudoElementStr (cssSelectorBuilder\<lparr>idStr := ''#main''\<rparr>)"
proof -
  have h: "LF \<notin> set (elementStr (cssSelectorBuilder\<lparr>idStr := ''#main''\<rparr>)
              @ idStr (cssSelectorBuilder\<lparr>idStr := ''#main''\<rparr>)
              @ classesStr (cssSelectorBuilder\<lparr>idStr := ''#main''\<rparr>)
              @ attrStr (cssSelectorBuilder\<lparr>idStr := ''#main''\<rparr>)
              @ pseudoClassesStr (cssSelectorBuilder\<lparr>idStr := ''#main''\<rparr>)
              @ pseudoElementStr (cssSelectorBuilder\<lparr>idStr := ''#main''\<rparr>))"
    by code_simp
  from stringify_canonical [of "cssSelectorBuilder\<lparr>idStr := ''#main''\<rparr>",
      THEN conjunct2, THEN conjunct1, THEN mp, OF h] h
  show ?thesis by (intro conjI)
qed

subsection \<open>C2: what a combined object returns\<close>

text \<open>
  C2: for all operands and every combinator text (so for each of the four tokens), the
  object built by \<open>combine\<close> stringifies to the left text, a space, the token, a space and
  the right text; the space token gives three spaces; and a combined object used as the
  left operand of a second \<open>combine\<close> contributes its own text unchanged.
\<close>

theorem combine_stringify:
  "stringify_of (fst (combine h a t b)) (snd (combine h a t b))
     = stringify_of h a @ '' '' @ t @ '' '' @ stringify_of h b
   \<and> stringify_of (fst (combine h a '' '' b)) (snd (combine h a '' '' b))
     = stringify_of h a @ ''   '' @ stringify_of h b
   \<and> stringify_of (fst (combine (fst (combine h a ''~'' b)) (snd (combine h a ''~'' b)) ''+'' c))
        (snd (combine (fst (combine h a ''~'' b)) (snd (combine h a ''~'' b)) ''+'' c))
     = stringify_of h a @ '' ~ '' @ stringify_of h b @ '' + '' @ stringify_of h c"
  by (simp add: combine_def)

subsection \<open>C3: a singular part given twice\<close>

text \<open>
  The claim C3 gives the message with the words \<open>more than one time\<close>; the constant
  \<open>occurExeption\<close> reads \<open>more then one time\<close>. Besides, the guard tests the stored
  text for truthiness, so a first \<open>element('')\<close> does not make a second \<open>element\<close> call
  fail.
\<close>

theorem occur_counterexample:
  "snd (chain [cssSelectorBuilder] 0 [(Element, ''table''), (Element, ''div'')])
     \<noteq> Inl (Error ''Element, id and pseudo-element should not occur more than one time inside the selector'')
   \<and> snd (chain [cssSelectorBuilder] 0 [(Element, ''''), (Element, ''div'')]) = Inr 2"
  by code_simp

text \<open>
  C3, as the code has it: on every chain on which \<open>id\<close> or \<open>pseudoElement\<close> has been
  called, or \<open>element\<close> with a name that has a character other than a line feed, a
  further call of the same method throws, leaving the store as it is, an \<open>Error\<close> whose
  message is \<open>occurExeption\<close>, which reads \<open>more then one time\<close>.
\<close>

theorem singular_twice:
  assumes "this < length h" and "chain h this calls = (h', Inr a)"
    and "(k, v) \<in> set calls" and "singular k" and "k = Element \<longrightarrow> strip_LF v \<noteq> []"
  shows "invoke h' a (k, w) = (h', Inl (Error occurExeption))
         \<and> occurExeption = ''Element, id and pseudo-element should not occur more then one time inside the selector''"
proof -
  have "seen_inv [] (h ! this)" by (simp add: seen_inv_def)
  from seen_chain [OF assms(1) this assms(2)] have si: "seen_inv calls (h' ! a)" by simp
  have "singular_text k (h' ! a) \<noteq> []"
  proof (cases "k = Element")
    case True
    with assms(3,5) si show ?thesis by (auto simp: seen_inv_def)
  next
    case False
    with assms(3,4) si show ?thesis by (cases k) (auto simp: seen_inv_def)
  qed
  then show ?thesis by (simp add: invoke_eq) (simp add: occurExeption_def)
qed

theorem singular_twice_witness:
  "0 < length [cssSelectorBuilder]
   \<and> chain [cssSelectorBuilder] 0 [(Element, ''table'')] =
       ([cssSelectorBuilder, cssSelectorBuilder\<lparr>elementStr := ''table'', partsOrder := [Element]\<rparr>], Inr 1)
   \<and> (Element, ''table'') \<in> set [(Element, ''table'')]
   \<and> singular Element
   \<and> strip_LF ''table'' \<noteq> []
   \<and> invoke [cssSelectorBuilder, cssSelectorBuilder\<lparr>elementStr := ''table'', partsOrder := [Element]\<rparr>] 1
        (Element, ''div'') =
       ([cssSelectorBuilder, cssSelectorBuilder\<lparr>elementStr := ''table'', partsOrder := [Element]\<rparr>],
        Inl (Error occurExeption))"
proof -
  have a: "0 < length [cssSelectorBuilder]" by simp
  have b: "chain [cssSelectorBuilder] 0 [(Element, ''table'')] =
       ([cssSelectorBuilder, cssSelectorBuilder\<lparr>elementStr := ''table'', partsOrder := [Element]\<rparr>], Inr 1)"
    by code_simp
  have c: "(Element, ''table'') \<in> set [(Element, ''table'')]" by simp
  have d: "singular Element" by simp
  have e: "strip_LF ''table'' \<noteq> []" by code_simp
  from e have e': "Element = Element \<longrightarrow> strip_LF ''table'' \<noteq> []" by simp
  from singular_twice [OF a b c d e', of "''div''"]
  have f: "invoke [cssSelectorBuilder, cssSelectorBuilder\<lparr>elementStr := ''table'', partsOrder := [Element]\<rparr>] 1
        (Element, ''div'') =
       ([cssSelectorBuilder, cssSelectorBuilder\<lparr>elementStr := ''table'', partsOrder := [Element]\<rparr>],
        Inl (Error occurExeption))" by (rule conjunct1)
  from a b c d e f show ?thesis by (intro conjI)
qed

subsection \<open>C4: a part appended out of order\<close>

text \<open>
  The claim C4 says that appending a part whose rank is lower than that of a part
  appended before always throws the out-of-order error. The guard of \<open>element\<close> and
  \<open>id\<close> comes first: after \<open>element('table').id('data')\<close> a call \<open>element('div')\<close> is of lower
  rank than \<open>id\<close> and throws the error with \<open>occurExeption\<close>.
\<close>

theorem out_of_order_counterexample:
  "snd (chain [cssSelectorBuilder] 0 [(Element, ''table''), (Id, ''data'')]) = Inr 1
   \<and> snd (invoke (fst (chain [cssSelectorBuilder] 0 [(Element, ''table''), (Id, ''data'')])) 1
              (Element, ''div''))
       = Inl (Error occurExeption)
   \<and> snd (invoke (fst (chain [cssSelectorBuilder] 0 [(Element, ''table''), (Id, ''data'')])) 1
              (Element, ''div''))
       \<noteq> Inl (Error rangeExeption)"
  by code_simp

text \<open>
  C4, as the code has it: on every chain, a call whose part has a lower rank than a part
  appended before on the chain throws inside that call; the error carries
  \<open>rangeExeption\<close>, whose text is the one the claim gives, unless the part is one whose
  guard finds its text already set on the object, in which case it carries
  \<open>occurExeption\<close>. In particular \<open>class('x')\<close> followed by \<open>element('div')\<close> throws the
  out-of-order error.
\<close>

theorem out_of_order:
  assumes "this < length h" and "chain h this calls = (h', Inr a)"
    and "k' \<in> fst ` set calls" and "rank k < rank k'"
  shows "snd (invoke h' a (k, v))
           = Inl (Error (if singular_text k (h' ! a) \<noteq> [] then occurExeption else rangeExeption))
         \<and> rangeExeption = ''Selector parts should be arranged in the following order: element, id, class, attribute, pseudo-class, pseudo-element''
         \<and> snd (chain [cssSelectorBuilder] 0 [(Class, ''x''), (Element, ''div'')])
           = Inl (Error rangeExeption)"
proof (intro conjI)
  have "seen_inv [] (h ! this)" by (simp add: seen_inv_def)
  from seen_chain [OF assms(1) this assms(2)] have si: "seen_inv calls (h' ! a)" by simp
  from assms(4) have "k' \<noteq> Element" by (auto simp: rank_simps)
  with si assms(3) have po: "k' \<in> set (partsOrder (h' ! a))" and ne: "stringify (h' ! a) \<noteq> []"
    by (auto simp: seen_inv_def)
  show "snd (invoke h' a (k, v))
           = Inl (Error (if singular_text k (h' ! a) \<noteq> [] then occurExeption else rangeExeption))"
    using out_of_order_step [OF po assms(4), of v] ne
    by (simp add: invoke_eq onCurrentObj_old)
next
  show "rangeExeption = ''Selector parts should be arranged in the following order: element, id, class, attribute, pseudo-class, pseudo-element''"
    by (simp add: rangeExeption_def)
next
  show "snd (chain [cssSelectorBuilder] 0 [(Class, ''x''), (Element, ''div'')])
           = Inl (Error rangeExeption)"
    by code_simp
qed

theorem out_of_order_witness:
  "0 < length [cssSelectorBuilder]
   \<and> chain [cssSelectorBuilder] 0 [(Class, ''x'')] =
       ([cssSelectorBuilder, cssSelectorBuilder\<lparr>classesStr := ''.x'', partsOrder := [Class]\<rparr>], Inr 1)
   \<and> Class \<in> fst ` set [(Class, ''x'')]
   \<and> rank Element < rank Class
   \<and> snd (invoke [cssSelectorBuilder, cssSelectorBuilder\<lparr>classesStr := ''.x'', partsOrder := [Class]\<rparr>] 1
            (Element, ''div''))
       = Inl (Error (if singular_text Element
                          ([cssSelectorBuilder,
                            cssSelectorBuilder\<lparr>classesStr := ''.x'', partsOrder := [Class]\<rparr>] ! 1) \<noteq> []
                     then occurExeption else rangeExeption))"
proof -
  have a: "0 < length [cssSelectorBuilder]" by simp
  have b: "chain [cssSelectorBuilder] 0 [(Class, ''x'')] =
       ([cssSelectorBuilder, cssSelectorBuilder\<lparr>classesStr := ''.x'', partsOrder := [Class]\<rparr>], Inr 1)"
    by code_simp
  have c: "Class \<in> fst ` set [(Class, ''x'')]" by simp
  have d: "rank Element < rank Class" by (simp add: rank_simps)
  from out_of_order [OF a b c d, of "''div''", THEN conjunct1] a b c d
  show ?thesis by (intro conjI)
qed

subsection \<open>C5: parts appended in order\<close>

text \<open>
  C5: starting from the builder, every sequence of calls whose parts are non-decreasing
  in rank and in which none of \<open>element\<close>, \<open>id\<close>, \<open>pseudoElement\<close> occurs twice runs to its
  end: every call returns an object. (\<open>stringify\<close> only concatenates and filters text, so
  the closing \<open>stringify\<close> call cannot throw.)
\<close>

theorem valid_order_never_raises:
  assumes "this < length h" and "h ! this = cssSelectorBuilder"
    and "sorted (map (rank \<circ> fst) calls)"
    and "distinct (filter singular (map fst calls))"
  shows "\<exists>h' a. chain h this calls = (h', Inr a) \<and> a < length h'"
proof -
  have oi: "ordered_inv [] (h ! this)" by (simp add: assms(2) ordered_inv_fresh)
  from assms(3) have s: "sorted (map rank ([] @ map fst calls))" by (simp add: comp_def)
  from assms(4) have d: "distinct (filter singular ([] @ map fst calls))" by simp
  from ordered_chain [OF assms(1) oi s d] show ?thesis .
qed

theorem valid_order_never_raises_witness:
  "0 < length [cssSelectorBuilder]
   \<and> [cssSelectorBuilder] ! 0 = cssSelectorBuilder
   \<and> sorted (map (rank \<circ> fst)
        [(Element, ''div''), (Id, ''main''), (Class, ''container''), (Class, ''draggable''),
         (Attr, ''href$=x''), (PseudoClass, ''focus''), (PseudoClass, ''hover''),
         (PseudoElement, ''after'')])
   \<and> distinct (filter singular (map fst
        [(Element, ''div''), (Id, ''main''), (Class, ''container''), (Class, ''draggable''),
         (Attr, ''href$=x''), (PseudoClass, ''focus''), (PseudoClass, ''hover''),
         (PseudoElement, ''after'')]))
   \<and> (\<exists>h' a. chain [cssSelectorBuilder] 0
        [(Element, ''div''), (Id, ''main''), (Class, ''container''), (Class, ''draggable''),
         (Attr, ''href$=x''), (PseudoClass, ''focus''), (PseudoClass, ''hover''),
         (PseudoElement, ''after'')] = (h', Inr a) \<and> a < length h')"
proof -
  have a: "0 < length [cssSelectorBuilder]" by simp
  have b: "[cssSelectorBuilder] ! 0 = cssSelectorBuilder" by simp
  have c: "sorted (map (rank \<circ> fst)
        [(Element, ''div''), (Id, ''main''), (Class, ''container''), (Class, ''draggable''),
         (Attr, ''href$=x''), (PseudoClass, ''focus''), (PseudoClass, ''hover''),
         (PseudoElement, ''after'')])"
    by (simp add: rank_simps)
  have d: "distinct (filter singular (map fst
        [(Element, ''div''), (Id, ''main''), (Class, ''container''), (Class, ''draggable''),
         (Attr, ''href$=x''), (PseudoClass, ''focus''), (PseudoClass, ''hover''),
         (PseudoElement, ''after'')]))"
    by simp
  from valid_order_never_raises [OF a b c d] a b c d
  show ?thesis by (intro conjI)
qed

subsection \<open>C6: chains started from the same builder\<close>

text \<open>
  C6: where \<open>t\<close> is a reference to the builder in any store, the first call on \<open>t\<close> leaves
  the store as it is and works on a new object, which is what \<open>processElement\<close> makes of
  the state of \<open>t\<close>; a whole chain started from \<open>t\<close> leaves every object that existed
  before it unchanged, the builder and the objects of other chains included; a second
  chain started from \<open>t\<close> after the first leaves the objects of the first unchanged; and
  any single call changes no object other than its receiver.
\<close>

theorem chains_do_not_interfere:
  assumes "t < length h" and "h ! t = cssSelectorBuilder"
  shows "invoke h t (k, v) = (h @ [fst (processElement (h ! t) v k)], Inr (length h))
         \<and> take (length h) (fst (chain h t cs)) = h
         \<and> take (length (fst (chain h t cs))) (fst (chain (fst (chain h t cs)) t cs')) = fst (chain h t cs)
         \<and> (p < length g \<longrightarrow> p \<noteq> r \<longrightarrow> fst (invoke g r c) ! p = g ! p)"
proof (intro conjI impI)
  have e: "stringify (h ! t) = []" by (simp add: assms(2)) code_simp
  have "singular_text k (h ! t) = []" by (simp add: assms(2) singular_text_fresh)
  then show "invoke h t (k, v) = (h @ [fst (processElement (h ! t) v k)], Inr (length h))"
    using e by (simp add: invoke_eq onCurrentObj_new assms(2))
  have fr: "take (length h) (fst (chain h t cs)) = take (length h) h"
    by (rule chain_frame) (use assms(1) e in auto)
  then show tk: "take (length h) (fst (chain h t cs)) = h" by simp
  let ?h1 = "fst (chain h t cs)"
  have "length (take (length h) ?h1) = length h" by (simp only: tk)
  then have le: "length h \<le> length ?h1" by simp
  have "?h1 ! t = take (length h) ?h1 ! t" using assms(1) by simp
  then have e1: "stringify (?h1 ! t) = []" using e by (simp add: tk)
  have "take (length ?h1) (fst (chain ?h1 t cs')) = take (length ?h1) ?h1"
    by (rule chain_frame) (use assms(1) le e1 in auto)
  then show "take (length ?h1) (fst (chain ?h1 t cs')) = ?h1" by simp
next
  assume "p < length g" "p \<noteq> r"
  then show "fst (invoke g r c) ! p = g ! p" by (rule invoke_frame)
qed

theorem chains_do_not_interfere_witness:
  "0 < length [cssSelectorBuilder]
   \<and> [cssSelectorBuilder] ! 0 = cssSelectorBuilder
   \<and> 1 < length two_selectors
   \<and> (1::nat) \<noteq> 2
   \<and> invoke [cssSelectorBuilder] 0 (Element, ''a'')
       = ([cssSelectorBuilder] @ [fst (processElement ([cssSelectorBuilder] ! 0) ''a'' Element)],
          Inr (length [cssSelectorBuilder]))
   \<and> take (length [cssSelectorBuilder])
        (fst (chain [cssSelectorBuilder] 0 [(Element, ''a''), (Class, ''x'')])) = [cssSelectorBuilder]
   \<and> take (length (fst (chain [cssSelectorBuilder] 0 [(Element, ''a''), (Class, ''x'')])))
        (fst (chain (fst (chain [cssSelectorBuilder] 0 [(Element, ''a''), (Class, ''x'')])) 0
                [(Element, ''b''), (Id, ''y'')]))
       = fst (chain [cssSelectorBuilder] 0 [(Element, ''a''), (Class, ''x'')])
   \<and> fst (invoke two_selectors 2 (Class, ''x'')) ! 1 = two_selectors ! 1"
proof -
  have a: "0 < length [cssSelectorBuilder]" by simp
  have b: "[cssSelectorBuilder] ! 0 = cssSelectorBuilder" by simp
  have c: "1 < length two_selectors" by code_simp
  have d: "(1::nat) \<noteq> 2" by simp
  note t = chains_do_not_interfere [OF a b, of Element "''a''" "[(Element, ''a''), (Class, ''x'')]"
      "[(Element, ''b''), (Id, ''y'')]" 1 two_selectors 2 "(Class, ''x'')"]
  from t have e: "invoke [cssSelectorBuilder] 0 (Element, ''a'')
       = ([cssSelectorBuilder] @ [fst (processElement ([cssSelectorBuilder] ! 0) ''a'' Element)],
          Inr (length [cssSelectorBuilder]))" by (rule conjunct1)
  from t have f: "take (length [cssSelectorBuilder])
        (fst (chain [cssSelectorBuilder] 0 [(Element, ''a''), (Class, ''x'')])) = [cssSelectorBuilder]"
    by (elim conjE)
  from t have g: "take (length (fst (chain [cssSelectorBuilder] 0 [(Element, ''a''), (Class, ''x'')])))
        (fst (chain (fst (chain [cssSelectorBuilder] 0 [(Element, ''a''), (Class, ''x'')])) 0
                [(Element, ''b''), (Id, ''y'')]))
       = fst (chain [cssSelectorBuilder] 0 [(Element, ''a''), (Class, ''x'')])"
    by (elim conjE)
  from t have "1 < length two_selectors \<longrightarrow> (1::nat) \<noteq> 2 \<longrightarrow>
      fst (invoke two_selectors 2 (Class, ''x'')) ! 1 = two_selectors ! 1"
    by (elim conjE)
  with c d have i: "fst (invoke two_selectors 2 (Class, ''x'')) ! 1 = two_selectors ! 1" by blast
  from a b c d e f g i show ?thesis by (intro conjI)
qed

subsection \<open>C7: the state after a failed call\<close>

text \<open>
  The claim C7 says that a call that throws leaves its receiver as it was.
  \<open>processElement\<close> assigns the text and pushes the part name before it checks the
  order: after \<open>class('x')\<close> the call \<open>element('div')\<close> throws the out-of-order error and
  the object then stringifies to \<open>div.x\<close>, with \<open>partsOrder\<close> holding both names.
\<close>

theorem failed_append_counterexample:
  "stringify (fst (invoke (fst (chain [cssSelectorBuilder] 0 [(Class, ''x'')])) 1
                     (Element, ''div'')) ! 1)
     \<noteq> stringify (fst (chain [cssSelectorBuilder] 0 [(Class, ''x'')]) ! 1)
   \<and> snd (chain [cssSelectorBuilder] 0 [(Class, ''x'')]) = Inr 1
   \<and> stringify (fst (chain [cssSelectorBuilder] 0 [(Class, ''x'')]) ! 1) = ''.x''
   \<and> partsOrder (fst (chain [cssSelectorBuilder] 0 [(Class, ''x'')]) ! 1) = [Class]
   \<and> snd (invoke (fst (chain [cssSelectorBuilder] 0 [(Class, ''x'')])) 1 (Element, ''div''))
       = Inl (Error rangeExeption)
   \<and> stringify (fst (invoke (fst (chain [cssSelectorBuilder] 0 [(Class, ''x'')])) 1
                        (Element, ''div'')) ! 1) = ''div.x''
   \<and> partsOrder (fst (invoke (fst (chain [cssSelectorBuilder] 0 [(Class, ''x'')])) 1
                        (Element, ''div'')) ! 1) = [Class, Element]"
  by code_simp

text \<open>
  C7, as the code has it: a call that throws the error with \<open>occurExeption\<close> leaves the
  whole store unchanged. A call that throws the out-of-order error had a receiver with a
  non-empty \<open>stringify\<close> and has stored in it, and in no other object, the new text and
  the update of \<open>partsOrder\<close>; \<open>stringify\<close> of the receiver is then that of the receiver
  with the new text in the field of the part: for \<open>element\<close> it is the name without its
  line feeds followed by what \<open>stringify\<close> returned before the call, for every other
  part it is longer than before the call.
\<close>

theorem failed_append:
  assumes "this < length h" and "invoke h this (k, v) = (h', Inl e)"
  shows "(e = Error occurExeption \<and> singular_text k (h ! this) \<noteq> [] \<and> h' = h)
         \<or> (e = Error rangeExeption \<and> stringify (h ! this) \<noteq> []
            \<and> h' = h[this := addPartToOrder
                                (propLib_assign k (currentValue (h ! this) v k) (h ! this)) k]
            \<and> stringify (h' ! this)
                = stringify (propLib_assign k (currentValue (h ! this) v k) (h ! this))
            \<and> (k = Element \<longrightarrow> stringify (h' ! this) = strip_LF v @ stringify (h ! this))
            \<and> (k \<noteq> Element \<longrightarrow> length (stringify (h ! this)) < length (stringify (h' ! this))))"
proof (cases "singular_text k (h ! this) = []")
  case False
  with assms(2) show ?thesis by (simp add: invoke_eq)
next
  case True
  show ?thesis
  proof (cases "stringify (h ! this) = []")
    case e: True
    with True assms(2) show ?thesis by (simp add: invoke_eq onCurrentObj_new)
  next
    case ne: False
    let ?s = "h ! this"
    from True ne assms(2)
    have h': "h' = h[this := fst (processElement ?s v k)]"
      and t: "snd (processElement ?s v k) = Some e"
      by (auto simp: invoke_eq onCurrentObj_old split: option.splits)
    from t have e: "e = Error rangeExeption"
      by (simp add: processElement_snd checkElemOrder_iff split: if_splits)
    from h' assms(1) have at: "h' ! this = fst (processElement ?s v k)" by simp
    have st: "stringify (h' ! this) = stringify (propLib_assign k (currentValue ?s v k) ?s)"
      by (simp only: at stringify_processElement)
    have el: "stringify (h' ! this) = strip_LF v @ stringify ?s" if "k = Element"
      using that True unfolding st by (simp add: stringify_eq currentValue_def)
    have ot: "length (stringify ?s) < length (stringify (h' ! this))" if "k \<noteq> Element"
      unfolding st using that True by (rule stringify_longer)
    from e ne h' st el ot show ?thesis by (simp add: processElement_fst)
  qed
qed

theorem failed_append_witness:
  "1 < length [cssSelectorBuilder, cssSelectorBuilder\<lparr>classesStr := ''.x'', partsOrder := [Class]\<rparr>]
   \<and> invoke [cssSelectorBuilder, cssSelectorBuilder\<lparr>classesStr := ''.x'', partsOrder := [Class]\<rparr>] 1
        (Element, ''div'')
       = ([cssSelectorBuilder,
           cssSelectorBuilder\<lparr>elementStr := ''div'', classesStr := ''.x'',
                               partsOrder := [Class, Element]\<rparr>],
          Inl (Error rangeExeption))
   \<and> stringify ([cssSelectorBuilder,
                  cssSelectorBuilder\<lparr>elementStr := ''div'', classesStr := ''.x'',
                                      partsOrder := [Class, Element]\<rparr>] ! 1)
       = strip_LF ''div''
         @ stringify ([cssSelectorBuilder,
                       cssSelectorBuilder\<lparr>classesStr := ''.x'', partsOrder := [Class]\<rparr>] ! 1)"
proof -
  have a: "1 < length [cssSelectorBuilder, cssSelectorBuilder\<lparr>classesStr := ''.x'', partsOrder := [Class]\<rparr>]"
    by simp
  have b: "invoke [cssSelectorBuilder, cssSelectorBuilder\<lparr>classesStr := ''.x'', partsOrder := [Class]\<rparr>] 1
        (Element, ''div'')
       = ([cssSelectorBuilder,
           cssSelectorBuilder\<lparr>elementStr := ''div'', classesStr := ''.x'',
                               partsOrder := [Class, Element]\<rparr>],
          Inl (Error rangeExeption))"
    by code_simp
  have c: "Error rangeExeption \<noteq> Error occurExeption" by code_simp
  from failed_append [OF a b] c
  have "stringify ([cssSelectorBuilder,
                  cssSelectorBuilder\<lparr>elementStr := ''div'', classesStr := ''.x'',
                                      partsOrder := [Class, Element]\<rparr>] ! 1)
       = strip_LF ''div''
         @ stringify ([cssSelectorBuilder,
                       cssSelectorBuilder\<lparr>classesStr := ''.x'', partsOrder := [Class]\<rparr>] ! 1)"
    by blast
  with a b show ?thesis by (intro conjI)
qed

subsection \<open>C8: attribute descriptors\<close>

text \<open>
  C8 asks for the descriptor to be split at its first \<open>=\<close>, the value being the rest.
  \<open>attr\<close> splits at every \<open>=\<close> and keeps the first two pieces only, so the text after
  a second \<open>=\<close> is lost: the descriptor \<open>href="?a=1"\<close> is rendered as \<open>[href="?a]\<close>.
\<close>

theorem attr_second_equals_dropped:
  "snd (chain [cssSelectorBuilder] 0 [(Attr, ''href=\"?a=1\"'')]) = Inr 1
   \<and> stringify (fst (chain [cssSelectorBuilder] 0 [(Attr, ''href=\"?a=1\"'')]) ! 1)
       = ''[href=\"?a]''
   \<and> stringify (fst (chain [cssSelectorBuilder] 0 [(Attr, ''href=\"?a=1\"'')]) ! 1)
       \<noteq> ''[href=\"?a=1\"]''"
  by code_simp

text \<open>
  What \<open>attr\<close> does for the descriptors that have one \<open>=\<close>: the descriptor is rendered
  between brackets as it is, a further attribute is put inside the same bracket pair
  after a space, and the example of the documentation comes out as documented.
\<close>

lemma split_str_one_sep:
  "c \<notin> set k \<Longrightarrow> c \<notin> set v \<Longrightarrow> split_str c (k @ c # v) = [k, v]"
  by (induction k) (auto simp: split_str_no_sep)

lemma attr_one_equals:
  assumes "CHR ''='' \<notin> set k" and "CHR ''='' \<notin> set v"
  shows "attrStr (fst (processElement s (k @ ''='' @ v) Attr))
           = (if js_slice (attrStr s) 1 (-1) \<noteq> []
              then ''['' @ js_slice (attrStr s) 1 (-1) @ '' '' @ k @ ''='' @ v @ '']''
              else ''['' @ k @ ''='' @ v @ '']'')"
  using split_str_one_sep [OF assms]
  by (simp add: processElement_fst currentValue_def)

lemma attr_accumulates:
  assumes "CHR ''='' \<notin> set k1" "CHR ''='' \<notin> set v1" "CHR ''='' \<notin> set k2" "CHR ''='' \<notin> set v2"
  shows "attrStr (fst (processElement
                         (fst (processElement cssSelectorBuilder (k1 @ ''='' @ v1) Attr))
                         (k2 @ ''='' @ v2) Attr))
           = ''['' @ k1 @ ''='' @ v1 @ '' '' @ k2 @ ''='' @ v2 @ '']''"
proof -
  have 1: "attrStr (fst (processElement cssSelectorBuilder (k1 @ ''='' @ v1) Attr))
             = ''['' @ k1 @ ''='' @ v1 @ '']''"
    using attr_one_equals [OF assms(1,2), of cssSelectorBuilder]
    by (simp add: cssSelectorBuilder_def js_slice_inner)
  have 2: "js_slice (''['' @ k1 @ ''='' @ v1 @ '']'') 1 (-1) = k1 @ ''='' @ v1"
    by (simp add: js_slice_inner butlast_append)
  from attr_one_equals [OF assms(3,4),
      of "fst (processElement cssSelectorBuilder (k1 @ ''='' @ v1) Attr)"]
  show ?thesis unfolding 1 2 by simp
qed

lemma attr_documented_example:
  "snd (chain [cssSelectorBuilder] 0
          [(Element, ''a''), (Attr, ''href$=\".png\"''), (PseudoClass, ''focus'')]) = Inr 1
   \<and> stringify (fst (chain [cssSelectorBuilder] 0
          [(Element, ''a''), (Attr, ''href$=\".png\"''), (PseudoClass, ''focus'')]) ! 1)
       = ''a[href$=\".png\"]:focus''"
  by code_simp

subsection \<open>C9: when a combined object computes its text\<close>

text \<open>
  The claim C9 says that a combined object derives its text from its operands at each
  \<open>stringify\<close> call. \<open>combine\<close> computes the text once, when it builds the object: after
  \<open>combine(a, '+', b)\<close> and then \<open>a.class('x')\<close>, the combined object still returns
  \<open>a + b\<close> while the operands now give \<open>a.x\<close> and \<open>b\<close>.
\<close>

theorem combine_lazy_counterexample:
  "stringify_of (fst (class_sel two_selectors 1 ''x''))
     (snd (combine two_selectors (SelectorRef 1) ''+'' (SelectorRef 2)))
     \<noteq> stringify_of (fst (class_sel two_selectors 1 ''x'')) (SelectorRef 1) @ '' '' @ ''+'' @ '' ''
        @ stringify_of (fst (class_sel two_selectors 1 ''x'')) (SelectorRef 2)
   \<and> snd (class_sel two_selectors 1 ''x'') = Inr 1
   \<and> stringify_of (fst (class_sel two_selectors 1 ''x''))
        (snd (combine two_selectors (SelectorRef 1) ''+'' (SelectorRef 2))) = ''a + b''
   \<and> stringify_of (fst (class_sel two_selectors 1 ''x'')) (SelectorRef 1) @ '' '' @ ''+'' @ '' ''
        @ stringify_of (fst (class_sel two_selectors 1 ''x'')) (SelectorRef 2) = ''a.x + b''"
  by code_simp

text \<open>
  C9, as the code has it: \<open>combine\<close> leaves the store, hence its operands, unchanged, and
  in every later store \<open>h'\<close> the combined object returns the left text, a space, the
  token, a space and the right text as the operands gave them when \<open>combine\<close> was called.
\<close>

theorem combine_eager:
  "fst (combine h a t b) = h
   \<and> stringify_of h' (snd (combine h a t b))
       = stringify_of h a @ '' '' @ t @ '' '' @ stringify_of h b"
  by (simp add: combine_def)

subsection \<open>C10: a descriptor without \<open>=\<close>\<close>

text \<open>
  The claim C10 says that, for a descriptor without \<open>=\<close>, \<open>attr\<close> does not throw and
  renders \<open>[descriptor=undefined]\<close>. After \<open>pseudoClass('focus')\<close> the call
  \<open>attr('disabled')\<close> throws the out-of-order error, as it does for any descriptor; and
  the earlier copy of \<open>attr\<close> stores \<open>[]\<close> for the descriptor \<open>__proto__\<close>.
\<close>

theorem attr_without_equals_counterexample:
  "snd (chain [cssSelectorBuilder] 0 [(PseudoClass, ''focus'')]) = Inr 1
   \<and> snd (attr (fst (chain [cssSelectorBuilder] 0 [(PseudoClass, ''focus'')])) 1 ''disabled'')
       = Inl (Error rangeExeption)
   \<and> snd (attr_part_001 [cssSelectorBuilder] 0 ''__proto__'') = Inr 1
   \<and> attrStr (fst (attr_part_001 [cssSelectorBuilder] 0 ''__proto__'') ! 1) = ''[]''
   \<and> attrStr (fst (attr_part_001 [cssSelectorBuilder] 0 ''__proto__'') ! 1)
       \<noteq> ''[__proto__=undefined]''"
  by code_simp

text \<open>
  C10, as the code has it: for every descriptor \<open>d\<close> that contains no \<open>=\<close>, the value is
  printed as the text \<open>undefined\<close> and the missing \<open>=\<close> never makes \<open>attr\<close> throw. On a
  receiver with an empty \<open>stringify\<close>, \<open>attr\<close> returns a new object whose attribute text is
  \<open>[d=undefined]\<close>. On any other receiver it stores \<open>[d=undefined]\<close>, or
  \<open>[prev d=undefined]\<close> where \<open>prev\<close> are the attributes already there, pushes the part
  name, and throws the out-of-order error exactly when a name before the last one in
  \<open>partsOrder\<close> does not rank below \<open>attr\<close>; \<open>stringify\<close> of the receiver then has the
  new attribute text in its place. On a chain started from the builder it throws exactly
  when \<open>pseudoClass\<close> or \<open>pseudoElement\<close> was called before. The earlier copy of \<open>attr\<close>
  returns the same as \<open>attr\<close> for every such descriptor other than \<open>__proto__\<close>, on every
  receiver that has no attribute text when its \<open>stringify\<close> is empty. In particular
  \<open>element('input').attr('disabled')\<close> stringifies to \<open>input[disabled=undefined]\<close>.
\<close>

theorem attr_without_equals:
  assumes "CHR ''='' \<notin> set d" and "this < length h"
  shows "(stringify (h ! this) = [] \<longrightarrow>
            attr h this d
              = (h @ [cssSelectorBuilder\<lparr>attrStr := ''['' @ d @ ''=undefined]'',
                                          partsOrder := [Attr]\<rparr>],
                 Inr (length h)))
         \<and> (stringify (h ! this) \<noteq> [] \<longrightarrow>
              attr h this d
                = (h[this := (h ! this)
                       \<lparr>attrStr := (if js_slice (attrStr (h ! this)) 1 (-1) \<noteq> []
                                     then ''['' @ js_slice (attrStr (h ! this)) 1 (-1) @ '' '' @ d
                                          @ ''=undefined]''
                                     else ''['' @ d @ ''=undefined]''),
                        partsOrder := (if partsOrder (h ! this) \<noteq> []
                                          \<and> last (partsOrder (h ! this)) = Attr
                                       then partsOrder (h ! this)
                                       else partsOrder (h ! this) @ [Attr])\<rparr>],
                   if \<forall>item \<in> set (butlast (if partsOrder (h ! this) \<noteq> []
                                                  \<and> last (partsOrder (h ! this)) = Attr
                                               then partsOrder (h ! this)
                                               else partsOrder (h ! this) @ [Attr])).
                        rank item < rank Attr
                   then Inr this else Inl (Error rangeExeption))
              \<and> stringify (fst (attr h this d) ! this)
                  = strip_LF (elementStr (h ! this) @ idStr (h ! this) @ classesStr (h ! this)
                      @ (if js_slice (attrStr (h ! this)) 1 (-1) \<noteq> []
                         then ''['' @ js_slice (attrStr (h ! this)) 1 (-1) @ '' '' @ d
                              @ ''=undefined]''
                         else ''['' @ d @ ''=undefined]'')
                      @ pseudoClassesStr (h ! this) @ pseudoElementStr (h ! this)))
         \<and> (h ! this = cssSelectorBuilder \<and> chain h this calls = (h', Inr a) \<longrightarrow>
              (PseudoClass \<in> fst ` set calls \<or> PseudoElement \<in> fst ` set calls \<longrightarrow>
                 snd (attr h' a d) = Inl (Error rangeExeption))
              \<and> (PseudoClass \<notin> fst ` set calls \<and> PseudoElement \<notin> fst ` set calls \<longrightarrow>
                 (\<exists>a'. snd (attr h' a d) = Inr a')))
         \<and> (d \<noteq> ''__proto__'' \<and> (stringify (h ! this) = [] \<longrightarrow> attrStr (h ! this) = []) \<longrightarrow>
              attr_part_001 h this d = attr h this d)
         \<and> snd (chain [cssSelectorBuilder] 0 [(Element, ''input''), (Attr, ''disabled'')]) = Inr 1
         \<and> stringify (fst (chain [cssSelectorBuilder] 0
                              [(Element, ''input''), (Attr, ''disabled'')]) ! 1)
             = ''input[disabled=undefined]''"
proof (intro conjI impI)
  assume e: "stringify (h ! this) = []"
  have "fst (processElement cssSelectorBuilder d Attr)
          = cssSelectorBuilder\<lparr>attrStr := ''['' @ d @ ''=undefined]'', partsOrder := [Attr]\<rparr>"
    by (simp add: attr_effect [OF assms(1)] cssSelectorBuilder_def js_slice_inner)
  with e show "attr h this d
              = (h @ [cssSelectorBuilder\<lparr>attrStr := ''['' @ d @ ''=undefined]'',
                                          partsOrder := [Attr]\<rparr>],
                 Inr (length h))"
    by (simp add: attr_def onCurrentObj_new)
next
  assume ne: "stringify (h ! this) \<noteq> []"
  let ?A = "if js_slice (attrStr (h ! this)) 1 (-1) \<noteq> []
            then ''['' @ js_slice (attrStr (h ! this)) 1 (-1) @ '' '' @ d @ ''=undefined]''
            else ''['' @ d @ ''=undefined]''"
  let ?P = "if partsOrder (h ! this) \<noteq> [] \<and> last (partsOrder (h ! this)) = Attr
            then partsOrder (h ! this) else partsOrder (h ! this) @ [Attr]"
  have eq: "attr h this d
          = (h[this := (h ! this)\<lparr>attrStr := ?A, partsOrder := ?P\<rparr>],
             if \<forall>item \<in> set (butlast ?P). rank item < rank Attr
             then Inr this else Inl (Error rangeExeption))"
    unfolding attr_def onCurrentObj_old [OF ne] attr_effect [OF assms(1)] attr_thrown
    by simp
  then show "attr h this d
          = (h[this := (h ! this)\<lparr>attrStr := ?A, partsOrder := ?P\<rparr>],
             if \<forall>item \<in> set (butlast ?P). rank item < rank Attr
             then Inr this else Inl (Error rangeExeption))" .
  from eq assms(2) have "fst (attr h this d) ! this = (h ! this)\<lparr>attrStr := ?A, partsOrder := ?P\<rparr>"
    by simp
  then show "stringify (fst (attr h this d) ! this)
      = strip_LF (elementStr (h ! this) @ idStr (h ! this) @ classesStr (h ! this) @ ?A
                  @ pseudoClassesStr (h ! this) @ pseudoElementStr (h ! this))"
    by (simp only: stringify_eq) simp
next
  assume c: "h ! this = cssSelectorBuilder \<and> chain h this calls = (h', Inr a)"
  assume p: "PseudoClass \<in> fst ` set calls \<or> PseudoElement \<in> fst ` set calls"
  have "seen_inv [] (h ! this)" by (simp add: seen_inv_def)
  from c have ch: "chain h this calls = (h', Inr a)" by simp
  from seen_chain [OF assms(2) \<open>seen_inv [] (h ! this)\<close> ch] have si: "seen_inv calls (h' ! a)" by simp
  have "\<exists>k'. k' \<in> fst ` set calls \<and> rank Attr < rank k'"
  proof (cases "PseudoClass \<in> fst ` set calls")
    case True
    moreover have "rank Attr < rank PseudoClass" by (simp add: rank_simps)
    ultimately show ?thesis by blast
  next
    case False
    with p have "PseudoElement \<in> fst ` set calls" by simp
    moreover have "rank Attr < rank PseudoElement" by (simp add: rank_simps)
    ultimately show ?thesis by blast
  qed
  then obtain k' where k': "k' \<in> fst ` set calls" and r: "rank Attr < rank k'" by blast
  from r have "k' \<noteq> Element" by (auto simp: rank_simps)
  with si k' have po: "k' \<in> set (partsOrder (h' ! a))" and ne: "stringify (h' ! a) \<noteq> []"
    by (auto simp: seen_inv_def)
  from out_of_order_step [OF po r, of d] ne
  show "snd (attr h' a d) = Inl (Error rangeExeption)"
    by (simp add: attr_def onCurrentObj_old)
next
  assume c: "h ! this = cssSelectorBuilder \<and> chain h this calls = (h', Inr a)"
  assume np: "PseudoClass \<notin> fst ` set calls \<and> PseudoElement \<notin> fst ` set calls"
  from c have ch: "chain h this calls = (h', Inr a)" by simp
  have "strict_inv [] (h ! this)" using c by (simp add: strict_inv_fresh)
  from strict_chain [OF assms(2) this ch]
  have st: "sorted_wrt (\<lambda>a b. rank a < rank b) (partsOrder (h' ! a))"
    and sub: "set (partsOrder (h' ! a)) \<subseteq> fst ` set calls"
    by (simp_all add: strict_inv_def)
  have le: "\<forall>x \<in> set (partsOrder (h' ! a)). rank x \<le> rank Attr"
  proof
    fix x assume "x \<in> set (partsOrder (h' ! a))"
    with sub np have "x \<noteq> PseudoClass" "x \<noteq> PseudoElement" by auto
    then show "rank x \<le> rank Attr" by (cases x) (simp_all add: rank_simps)
  qed
  from strict_step [OF st le, of d]
  show "\<exists>a'. snd (attr h' a d) = Inr a'"
    by (cases "stringify (h' ! a) = []") (simp_all add: attr_def onCurrentObj_new onCurrentObj_old)
next
  assume p: "d \<noteq> ''__proto__'' \<and> (stringify (h ! this) = [] \<longrightarrow> attrStr (h ! this) = [])"
  from split_str_no_sep [OF assms(1)] p
  have "to_str (fst (destructure2 (split_str CHR ''='' d))) \<noteq> ''__proto__''" by simp
  with p show "attr_part_001 h this d = attr h this d"
    by (intro attr_part_001_agrees) simp_all
next
  show "snd (chain [cssSelectorBuilder] 0 [(Element, ''input''), (Attr, ''disabled'')]) = Inr 1"
    by code_simp
next
  show "stringify (fst (chain [cssSelectorBuilder] 0
                              [(Element, ''input''), (Attr, ''disabled'')]) ! 1)
             = ''input[disabled=undefined]''"
    by code_simp
qed

theorem attr_without_equals_witness:
  "CHR ''='' \<notin> set ''disabled''
   \<and> 0 < length [cssSelectorBuilder]
   \<and> stringify ([cssSelectorBuilder] ! 0) = []
   \<and> attr [cssSelectorBuilder] 0 ''disabled''
       = ([cssSelectorBuilder] @ [cssSelectorBuilder\<lparr>attrStr := ''['' @ ''disabled'' @ ''=undefined]'',
                                          partsOrder := [Attr]\<rparr>],
          Inr (length [cssSelectorBuilder]))
   \<and> 1 < length [cssSelectorBuilder,
                   cssSelectorBuilder\<lparr>elementStr := ''input'', partsOrder := [Element]\<rparr>]
   \<and> stringify ([cssSelectorBuilder,
                  cssSelectorBuilder\<lparr>elementStr := ''input'', partsOrder := [Element]\<rparr>] ! 1) \<noteq> []
   \<and> stringify (fst (attr [cssSelectorBuilder,
                            cssSelectorBuilder\<lparr>elementStr := ''input'', partsOrder := [Element]\<rparr>]
                        1 ''disabled'') ! 1)
       = ''input[disabled=undefined]''
   \<and> [cssSelectorBuilder] ! 0 = cssSelectorBuilder
   \<and> chain [cssSelectorBuilder] 0 [(PseudoClass, ''focus'')]
       = ([cssSelectorBuilder,
           cssSelectorBuilder\<lparr>pseudoClassesStr := '':focus'', partsOrder := [PseudoClass]\<rparr>], Inr 1)
   \<and> PseudoClass \<in> fst ` set [(PseudoClass, ''focus'')]
   \<and> snd (attr [cssSelectorBuilder,
                 cssSelectorBuilder\<lparr>pseudoClassesStr := '':focus'', partsOrder := [PseudoClass]\<rparr>]
             1 ''disabled'')
       = Inl (Error rangeExeption)
   \<and> ''disabled'' \<noteq> ''__proto__''
   \<and> attrStr ([cssSelectorBuilder] ! 0) = []
   \<and> attr_part_001 [cssSelectorBuilder] 0 ''disabled'' = attr [cssSelectorBuilder] 0 ''disabled''"
proof -
  let ?H = "[cssSelectorBuilder,
             cssSelectorBuilder\<lparr>elementStr := ''input'', partsOrder := [Element]\<rparr>]"
  let ?H2 = "[cssSelectorBuilder,
              cssSelectorBuilder\<lparr>pseudoClassesStr := '':focus'', partsOrder := [PseudoClass]\<rparr>]"
  have a: "CHR ''='' \<notin> set ''disabled''" by simp
  have b: "0 < length [cssSelectorBuilder]" by simp
  have c: "stringify ([cssSelectorBuilder] ! 0) = []" by code_simp
  from attr_without_equals [OF a b, THEN conjunct1, THEN mp, OF c]
  have d: "attr [cssSelectorBuilder] 0 ''disabled''
       = ([cssSelectorBuilder] @ [cssSelectorBuilder\<lparr>attrStr := ''['' @ ''disabled'' @ ''=undefined]'',
                                          partsOrder := [Attr]\<rparr>],
          Inr (length [cssSelectorBuilder]))" .
  have e: "1 < length ?H" by simp
  have f: "stringify (?H ! 1) \<noteq> []" by code_simp
  from attr_without_equals [OF a e, THEN conjunct2, THEN conjunct1, THEN mp, OF f, THEN conjunct2]
  have "stringify (fst (attr ?H 1 ''disabled'') ! 1)
          = strip_LF (elementStr (?H ! 1) @ idStr (?H ! 1) @ classesStr (?H ! 1)
              @ (if js_slice (attrStr (?H ! 1)) 1 (-1) \<noteq> []
                 then ''['' @ js_slice (attrStr (?H ! 1)) 1 (-1) @ '' '' @ ''disabled''
                      @ ''=undefined]''
                 else ''['' @ ''disabled'' @ ''=undefined]'')
              @ pseudoClassesStr (?H ! 1) @ pseudoElementStr (?H ! 1))" .
  also have "\<dots> = ''input[disabled=undefined]''" by code_simp
  finally have g: "stringify (fst (attr ?H 1 ''disabled'') ! 1) = ''input[disabled=undefined]''" .
  have i: "[cssSelectorBuilder] ! 0 = cssSelectorBuilder" by simp
  have j: "chain [cssSelectorBuilder] 0 [(PseudoClass, ''focus'')] = (?H2, Inr 1)" by code_simp
  have k: "PseudoClass \<in> fst ` set [(PseudoClass, ''focus'')]" by simp
  from k have k': "PseudoClass \<in> fst ` set [(PseudoClass, ''focus'')]
                   \<or> PseudoElement \<in> fst ` set [(PseudoClass, ''focus'')]" ..
  from attr_without_equals [OF a b, THEN conjunct2, THEN conjunct2, THEN conjunct1, THEN mp,
      OF conjI [OF i j], THEN conjunct1, THEN mp, OF k']
  have l: "snd (attr ?H2 1 ''disabled'') = Inl (Error rangeExeption)" .
  have n: "''disabled'' \<noteq> ''__proto__''" by simp
  have o': "attrStr ([cssSelectorBuilder] ! 0) = []" by (simp add: cssSelectorBuilder_def)
  then have o: "stringify ([cssSelectorBuilder] ! 0) = [] \<longrightarrow> attrStr ([cssSelectorBuilder] ! 0) = []"
    by (rule impI)
  from attr_without_equals [OF a b, THEN conjunct2, THEN conjunct2, THEN conjunct2,
      THEN conjunct1, THEN mp, OF conjI [OF n o]]
  have q: "attr_part_001 [cssSelectorBuilder] 0 ''disabled'' = attr [cssSelectorBuilder] 0 ''disabled''" .
  from a b c d e f g i j k l n o' q show ?thesis by (intro conjI)
qed

end
